theory Spec2Isabelle
  imports Main "HOL-Library.Sublist"
begin

section \<open>Syntax nodes\<close>

text \<open>
  The program works on the decorated syntax tree of the dst library. The node shapes that
  the code inspects or constructs are constructors of their own; every other node kind is
  \<open>Other\<close>, with its kind and its children in traversal order (a function literal is
  \<open>Other ''FuncLit'' [type, body]\<close>, a block is \<open>Other ''BlockStmt'' stmts\<close>).
  A selector's \<open>Sel\<close> identifier is kept as its name, an import's \<open>Path\<close> literal as its
  kind and value, and an import's optional \<open>Name\<close> identifier as an optional name.
  Decorations are carried on the two node kinds whose decorations the code copies.
\<close>

datatype SpaceType = NoSpace | NewLine | EmptyLine

record NodeDecs =
  Before :: SpaceType
  Start :: "string list"
  End :: "string list"
  After :: SpaceType

datatype token = token_INT | token_FLOAT | token_IMAG | token_CHAR | token_STRING

datatype node =
    Ident string
  | BasicLit token string
  | SelectorExpr node string
  | CallExpr node "node list"
  | ExprStmt node NodeDecs
  | ImportSpec "string option" token string NodeDecs
  | Other string "node list"

datatype panic = IndexOutOfRange

section \<open>Level table\<close>

definition logLevels :: "string \<rightharpoonup> string" where
  "logLevels = map_of
     [(''Trace'', ''slog.LevelTrace''),
      (''Debug'', ''slog.LevelDebug''),
      (''Info'', ''slog.LevelInfo''),
      (''Warn'', ''slog.LevelWarn''),
      (''Error'', ''slog.LevelError''),
      (''Fatal'', ''slog.LevelError''),
      (''Panic'', ''slog.LevelError'')]"

definition isLoggerLevel :: "string \<Rightarrow> bool" where
  "isLoggerLevel name = (logLevels name \<noteq> None)"

section \<open>convertFieldToSlogAttr\<close>

definition slogAttrCall :: "string \<Rightarrow> node list \<Rightarrow> node" where
  "slogAttrCall slogAttrFunc slogArgs =
     CallExpr (SelectorExpr (Ident ''slog'') slogAttrFunc) slogArgs"

definition convertFieldToSlogAttr :: "string \<Rightarrow> node list \<Rightarrow> node option" where
  \<open>convertFieldToSlogAttr funcName args =
     (if funcName = ''Bool'' then Some (slogAttrCall ''Bool'' args)
      else if funcName = ''Dur'' then Some (slogAttrCall ''Duration'' args)
      else if funcName = ''Float32'' then
        (if length args = 2
         then Some (slogAttrCall ''Float64'' [args ! 0, CallExpr (Ident ''float64'') [args ! 1]])
         else None)
      else if funcName = ''Float64'' then Some (slogAttrCall ''Float64'' args)
      else if funcName = ''Str'' then Some (slogAttrCall ''String'' args)
      else if funcName = ''Int'' then Some (slogAttrCall ''Int'' args)
      else if funcName = ''Int8'' \<or> funcName = ''Int16'' \<or> funcName = ''Int32'' then
        (if length args = 2
         then Some (slogAttrCall ''Int'' [args ! 0, CallExpr (Ident ''int'') [args ! 1]])
         else None)
      else if funcName = ''Int64'' then Some (slogAttrCall ''Int64'' args)
      else if funcName = ''Uint64'' then Some (slogAttrCall ''UInt64'' args)
      else if funcName = ''Uint'' \<or> funcName = ''Uint8'' \<or> funcName = ''Uint16''
              \<or> funcName = ''Uint32'' then
        (if length args = 2
         then Some (slogAttrCall ''Uint64'' [args ! 0, CallExpr (Ident ''uint64'') [args ! 1]])
         else None)
      else if funcName = ''Time'' then Some (slogAttrCall ''Time'' args)
      else if funcName = ''Err'' then
        Some (slogAttrCall ''Any'' (BasicLit token_STRING ''"err"'' # args))
      else if length args = 2 then Some (slogAttrCall ''Any'' args)
      else None)\<close>

section \<open>extractZerologChain\<close>

text \<open>
  The walking loop of \<open>extractZerologChain\<close>. The current call is given by its \<open>Fun\<close> and
  \<open>Args\<close> fields, since \<open>current\<close> is a call expression by its type. A failing return is
  the triple of the empty level, no message and no attributes.
\<close>

fun chainLoop ::
  "node \<Rightarrow> node list \<Rightarrow> node \<Rightarrow> node list \<Rightarrow> string \<times> node option \<times> node list" where
  "chainLoop (SelectorExpr X funcName) args message slogAttrs =
     (if isLoggerLevel funcName then
        (case X of
           Ident _ \<Rightarrow> (funcName, Some message, slogAttrs)
         | _ \<Rightarrow> ('''', None, []))
      else
        (let slogAttrs' =
           (case convertFieldToSlogAttr funcName args of
              Some attrCall \<Rightarrow> attrCall # slogAttrs
            | None \<Rightarrow> slogAttrs)
         in (case X of
               CallExpr prevFun prevArgs \<Rightarrow> chainLoop prevFun prevArgs message slogAttrs'
             | _ \<Rightarrow> ('''', None, []))))"
| "chainLoop _ _ _ _ = ('''', None, [])"

definition extractZerologChain ::
  "node \<Rightarrow> node list \<Rightarrow> string \<Rightarrow> node list
     \<Rightarrow> panic + (string \<times> node option \<times> node list)" where
  \<open>extractZerologChain currentFun currentArgs termFunc termArgs =
     (if termFunc = ''Msg'' \<or> termFunc = ''Msgf'' then
        (case termArgs of
           [] \<Rightarrow> Inl IndexOutOfRange
         | message # _ \<Rightarrow> Inr (chainLoop currentFun currentArgs message []))
      else
        Inr (chainLoop currentFun currentArgs (BasicLit token_STRING ''"zerolog event"'') []))\<close>

section \<open>buildSlogLogAttrsCall\<close>

text \<open>\<open>strings.Split\<close> with a separator of one character.\<close>

fun split :: "char \<Rightarrow> string \<Rightarrow> string list" where
  "split sep [] = [[]]"
| "split sep (c # cs) =
     (if c = sep then [] # split sep cs
      else (case split sep cs of
              [] \<Rightarrow> [[c]]
            | w # ws \<Rightarrow> (c # w) # ws))"

definition index :: "'a list \<Rightarrow> nat \<Rightarrow> panic + 'a" where
  "index xs i = (if i < length xs then Inr (xs ! i) else Inl IndexOutOfRange)"

definition buildSlogLogAttrsCall :: "string \<Rightarrow> node \<Rightarrow> node list \<Rightarrow> panic + node" where
  "buildSlogLogAttrsCall levelStr message slogAttrs =
     (let levelConstant = (case logLevels levelStr of
                             Some c \<Rightarrow> c
                           | None \<Rightarrow> ''slog.LevelInfo'');
          parts = split CHR ''.'' levelConstant
      in case index parts 0 of
           Inl e \<Rightarrow> Inl e
         | Inr levelPackage \<Rightarrow>
             (case index parts 1 of
                Inl e \<Rightarrow> Inl e
              | Inr levelName \<Rightarrow>
                  (let levelExpr = SelectorExpr (Ident levelPackage) levelName;
                       contextExpr = Ident ''ctx'';
                       args = [contextExpr, levelExpr, message] @ slogAttrs
                   in Inr (CallExpr (SelectorExpr (Ident ''slog'') ''LogAttrs'') args))))"

section \<open>RewriteVisitor.Visit\<close>

text \<open>
  The replacement map is keyed by node identity. The nodes of a parsed tree are pairwise
  distinct, so a node is identified by its position: the list of child indices leading to
  it from the root. The \<open>fileSet\<close> field of the visitor is never read and is left out.
  \<open>Visit\<close> returns the visitor and whether the returned visitor is non-nil, that is,
  whether the traversal descends into the node's children.
\<close>

type_synonym path = "nat list"

record RewriteVisitor =
  Replacements :: "path \<rightharpoonup> node"

definition record_replacement :: "RewriteVisitor \<Rightarrow> path \<Rightarrow> node \<Rightarrow> RewriteVisitor" where
  "record_replacement v key new = v\<lparr>Replacements := (Replacements v)(key \<mapsto> new)\<rparr>"

fun Visit :: "RewriteVisitor \<Rightarrow> path \<Rightarrow> node \<Rightarrow> panic + (RewriteVisitor \<times> bool)" where
  \<open>Visit v key (ImportSpec name kind val decs) =
     (if val = ''"github.com/rs/zerolog/log"''
      then Inr (record_replacement v key (ImportSpec None token_STRING ''"log/slog"'' decs), False)
      else Inr (v, True))\<close>
| \<open>Visit v key (ExprStmt (CallExpr (SelectorExpr (CallExpr headFun headArgs) termFunc) args) decs) =
     (if termFunc \<noteq> ''Msg'' \<and> termFunc \<noteq> ''Msgf'' \<and> termFunc \<noteq> ''Send'' then Inr (v, True)
      else
        (case extractZerologChain headFun headArgs termFunc args of
           Inl e \<Rightarrow> Inl e
         | Inr (levelStr, None, slogAttrs) \<Rightarrow> Inr (v, True)
         | Inr (levelStr, Some messageExpr, slogAttrs) \<Rightarrow>
             (case buildSlogLogAttrsCall levelStr messageExpr slogAttrs of
                Inl e \<Rightarrow> Inl e
              | Inr newSlogCall \<Rightarrow>
                  Inr (record_replacement v key (ExprStmt newSlogCall decs), False))))\<close>
| \<open>Visit v key _ = Inr (v, True)\<close>

section \<open>Chains as written in the source text\<close>

text \<open>
  \<open>attach e [(n1, a1), ..., (nk, ak)]\<close> is the expression written \<open>e.n1(a1)...nk(ak)\<close>:
  the links are listed left to right as in the source text, so the last one is the
  outermost call.
\<close>

definition attach :: "node \<Rightarrow> (string \<times> node list) list \<Rightarrow> node" where
  "attach e links = foldl (\<lambda>x (name, args). CallExpr (SelectorExpr x name) args) e links"

section \<open>The traversal and the rewrite\<close>

text \<open>
  \<open>processFile\<close> runs \<open>dst.Walk\<close> with the visitor over the file and then
  \<open>replaceAndPrintDST\<close>, which runs \<open>dstutil.Apply\<close> with a post-order function that
  replaces every node found in the replacement map.

  \<open>Walk\<close> is \<open>dst.Walk\<close>: it calls \<open>Visit\<close> on the node and, unless the visitor returned
  is nil, walks the children in order. The child \<open>j\<close> of the node at path \<open>p\<close> is at
  \<open>p @ [j]\<close>; the function of a call is child 0 and its arguments follow. The identifier
  of a selector and the name and path of an import are leaves on which \<open>Visit\<close> records
  nothing, and so is the closing call \<open>Visit(nil)\<close>: they are left out. A panic of
  \<open>Visit\<close> ends the traversal.
\<close>

fun Walk :: "RewriteVisitor \<Rightarrow> path \<Rightarrow> node \<Rightarrow> panic + RewriteVisitor"
  and walkList :: "RewriteVisitor \<Rightarrow> path \<Rightarrow> nat \<Rightarrow> node list \<Rightarrow> panic + RewriteVisitor"
where
  "Walk v p (Ident name) =
     (case Visit v p (Ident name) of
        Inl e \<Rightarrow> Inl e
      | Inr (w, descend) \<Rightarrow> Inr w)"
| "Walk v p (BasicLit kind val) =
     (case Visit v p (BasicLit kind val) of
        Inl e \<Rightarrow> Inl e
      | Inr (w, descend) \<Rightarrow> Inr w)"
| "Walk v p (SelectorExpr X sel) =
     (case Visit v p (SelectorExpr X sel) of
        Inl e \<Rightarrow> Inl e
      | Inr (w, descend) \<Rightarrow> if descend then Walk w (p @ [0]) X else Inr w)"
| "Walk v p (CallExpr f args) =
     (case Visit v p (CallExpr f args) of
        Inl e \<Rightarrow> Inl e
      | Inr (w, descend) \<Rightarrow>
          if descend then
            (case Walk w (p @ [0]) f of
               Inl e \<Rightarrow> Inl e
             | Inr w' \<Rightarrow> walkList w' p 1 args)
          else Inr w)"
| "Walk v p (ExprStmt X decs) =
     (case Visit v p (ExprStmt X decs) of
        Inl e \<Rightarrow> Inl e
      | Inr (w, descend) \<Rightarrow> if descend then Walk w (p @ [0]) X else Inr w)"
| "Walk v p (ImportSpec name kind val decs) =
     (case Visit v p (ImportSpec name kind val decs) of
        Inl e \<Rightarrow> Inl e
      | Inr (w, descend) \<Rightarrow> Inr w)"
| "Walk v p (Other kind children) =
     (case Visit v p (Other kind children) of
        Inl e \<Rightarrow> Inl e
      | Inr (w, descend) \<Rightarrow> if descend then walkList w p 0 children else Inr w)"
| "walkList v p i [] = Inr v"
| "walkList v p i (n # ns) =
     (case Walk v (p @ [i]) n of
        Inl e \<Rightarrow> Inl e
      | Inr w \<Rightarrow> walkList w p (Suc i) ns)"

text \<open>
  \<open>Apply\<close> is \<open>dstutil.Apply\<close> with the post-order function of \<open>replaceAndPrintDST\<close>:
  the children are rewritten first, then the node itself is replaced when the map has an
  entry for it. \<open>replaceAndPrintDST\<close> is the tree that is handed to the printer.
\<close>

fun Apply :: "(path \<rightharpoonup> node) \<Rightarrow> path \<Rightarrow> node \<Rightarrow> node"
  and applyList :: "(path \<rightharpoonup> node) \<Rightarrow> path \<Rightarrow> nat \<Rightarrow> node list \<Rightarrow> node list"
where
  "Apply replacements p (Ident name) =
     (case replacements p of Some new \<Rightarrow> new | None \<Rightarrow> Ident name)"
| "Apply replacements p (BasicLit kind val) =
     (case replacements p of Some new \<Rightarrow> new | None \<Rightarrow> BasicLit kind val)"
| "Apply replacements p (SelectorExpr X sel) =
     (let X' = Apply replacements (p @ [0]) X
      in case replacements p of Some new \<Rightarrow> new | None \<Rightarrow> SelectorExpr X' sel)"
| "Apply replacements p (CallExpr f args) =
     (let f' = Apply replacements (p @ [0]) f;
          args' = applyList replacements p 1 args
      in case replacements p of Some new \<Rightarrow> new | None \<Rightarrow> CallExpr f' args')"
| "Apply replacements p (ExprStmt X decs) =
     (let X' = Apply replacements (p @ [0]) X
      in case replacements p of Some new \<Rightarrow> new | None \<Rightarrow> ExprStmt X' decs)"
| "Apply replacements p (ImportSpec name kind val decs) =
     (case replacements p of Some new \<Rightarrow> new | None \<Rightarrow> ImportSpec name kind val decs)"
| "Apply replacements p (Other kind children) =
     (let children' = applyList replacements p 0 children
      in case replacements p of Some new \<Rightarrow> new | None \<Rightarrow> Other kind children')"
| "applyList replacements p i [] = []"
| "applyList replacements p i (n # ns) =
     Apply replacements (p @ [i]) n # applyList replacements p (Suc i) ns"

definition replaceAndPrintDST :: "node \<Rightarrow> (path \<rightharpoonup> node) \<Rightarrow> node" where
  "replaceAndPrintDST fileNode replacements = Apply replacements [] fileNode"

section \<open>Statements nested in replaced statements\<close>

text \<open>
  \<open>no_stmt n\<close>: no expression statement and no import occurs in \<open>n\<close>.
  \<open>replaces n\<close>: \<open>Visit\<close> records a replacement for \<open>n\<close>.
  \<open>replaced_flat n\<close>: every expression statement of \<open>n\<close> that the traversal reaches
  and \<open>Visit\<close> replaces has an expression without nested statements or imports.
\<close>

fun no_stmt :: "node \<Rightarrow> bool" where
  "no_stmt (Ident name) = True"
| "no_stmt (BasicLit kind val) = True"
| "no_stmt (SelectorExpr X sel) = no_stmt X"
| "no_stmt (CallExpr f args) = (no_stmt f \<and> list_all no_stmt args)"
| "no_stmt (ExprStmt X decs) = False"
| "no_stmt (ImportSpec name kind val decs) = False"
| "no_stmt (Other kind children) = list_all no_stmt children"

definition replaces :: "node \<Rightarrow> bool" where
  "replaces n =
     (case Visit \<lparr>Replacements = Map.empty\<rparr> [] n of
        Inl e \<Rightarrow> False
      | Inr (w, descend) \<Rightarrow> \<not> descend)"

fun replaced_flat :: "node \<Rightarrow> bool" where
  "replaced_flat (Ident name) = True"
| "replaced_flat (BasicLit kind val) = True"
| "replaced_flat (SelectorExpr X sel) = replaced_flat X"
| "replaced_flat (CallExpr f args) = (replaced_flat f \<and> list_all replaced_flat args)"
| "replaced_flat (ExprStmt X decs) =
     (if replaces (ExprStmt X decs) then no_stmt X else replaced_flat X)"
| "replaced_flat (ImportSpec name kind val decs) = True"
| "replaced_flat (Other kind children) = list_all replaced_flat children"

section \<open>The part of a statement that the matching reads\<close>

text \<open>
  What the matching of a statement looks at: the calls, selectors and identifiers of the
  chain, and the number of arguments of each call. \<open>spine\<close> erases everything else, and
  \<open>chainOk\<close> follows the control flow of the loop of \<open>extractZerologChain\<close> alone.
\<close>

fun spine :: "node \<Rightarrow> node" where
  "spine (Ident name) = Ident name"
| "spine (SelectorExpr X sel) = SelectorExpr (spine X) sel"
| "spine (CallExpr f args) = CallExpr (spine f) (map (\<lambda>a. Ident []) args)"
| "spine (BasicLit kind val) = Other [] []"
| "spine (ExprStmt X decs) = Other [] []"
| "spine (ImportSpec name kind val decs) = Other [] []"
| "spine (Other kind children) = Other [] []"

fun chainOk :: "node \<Rightarrow> bool" where
  "chainOk (SelectorExpr X funcName) =
     (if isLoggerLevel funcName then (case X of Ident _ \<Rightarrow> True | _ \<Rightarrow> False)
      else (case X of CallExpr prevFun prevArgs \<Rightarrow> chainOk prevFun | _ \<Rightarrow> False))"
| "chainOk _ = False"

section \<open>Example trees\<close>

text \<open>
  \<open>nested_tree\<close> is a block whose only statement is
  \<open>log.Info().Msg(func() string { log.Info().Msg("inner"); return "outer" }())\<close>.
  \<open>flat_tree\<close> is a file with the zerolog import and a function whose body holds
  \<open>log.Info().Str("key", "value").Send()\<close> and
  \<open>wg.Go(func() { log.Warn().Msg("late") })\<close>.
\<close>

definition plain_decs :: NodeDecs where
  "plain_decs = \<lparr>Before = NewLine, Start = [], End = [], After = NewLine\<rparr>"

definition inner_stmt :: node where
  \<open>inner_stmt =
     ExprStmt
       (CallExpr (SelectorExpr (CallExpr (SelectorExpr (Ident ''log'') ''Info'') []) ''Msg'')
          [BasicLit token_STRING ''"inner"''])
       plain_decs\<close>

definition message_closure :: node where
  \<open>message_closure =
     CallExpr
       (Other ''FuncLit''
          [Other ''FuncType'' [Ident ''string''],
           Other ''BlockStmt'' [inner_stmt, Other ''ReturnStmt'' [BasicLit token_STRING ''"outer"'']]])
       []\<close>

definition nested_tree :: node where
  \<open>nested_tree =
     Other ''BlockStmt''
       [ExprStmt
          (CallExpr (SelectorExpr (CallExpr (SelectorExpr (Ident ''log'') ''Info'') []) ''Msg'')
             [message_closure])
          plain_decs]\<close>

definition flat_tree :: node where
  \<open>flat_tree =
     Other ''File''
       [Other ''GenDecl''
          [ImportSpec None token_STRING ''"github.com/rs/zerolog/log"'' plain_decs],
        Other ''FuncDecl''
          [Ident ''main'',
           Other ''BlockStmt''
             [ExprStmt
                (CallExpr (SelectorExpr
                   (CallExpr (SelectorExpr
                      (CallExpr (SelectorExpr (Ident ''log'') ''Info'') [])
                      ''Str'') [BasicLit token_STRING ''"key"'', BasicLit token_STRING ''"value"''])
                   ''Send'') [])
                plain_decs,
              ExprStmt
                (CallExpr (SelectorExpr (Ident ''wg'') ''Go'')
                   [Other ''FuncLit''
                      [Other ''FuncType'' [],
                       Other ''BlockStmt''
                         [ExprStmt
                            (CallExpr (SelectorExpr
                               (CallExpr (SelectorExpr (Ident ''log'') ''Warn'') [])
                               ''Msg'') [BasicLit token_STRING ''"late"''])
                            plain_decs]]])
                plain_decs]]]\<close>

section \<open>Basic facts\<close>

lemma attach_Nil: "attach e [] = e"
  by (simp add: attach_def)

lemma attach_snoc: "attach e (ls @ [(n, a)]) = CallExpr (SelectorExpr (attach e ls) n) a"
  by (simp add: attach_def)

lemma attach_is_call: "\<exists>f a. attach (CallExpr f0 a0) ls = CallExpr f a"
  by (induction ls rule: rev_induct) (auto simp: attach_Nil attach_snoc)

lemma isLoggerLevel_iff:
  "isLoggerLevel n \<longleftrightarrow>
     n \<in> {''Trace'', ''Debug'', ''Info'', ''Warn'', ''Error'', ''Fatal'', ''Panic''}"
  by (simp add: isLoggerLevel_def logLevels_def)

lemma chainLoop_result:
  "chainLoop f a m acc = (l, msg, attrs) \<Longrightarrow>
     (msg = None \<and> l = '''' \<and> attrs = []) \<or> (msg = Some m \<and> isLoggerLevel l)"
proof (induction f a m acc rule: chainLoop.induct)
  case (1 X funcName args message slogAttrs)
  then show ?case
    by (cases X) (auto split: if_splits option.splits simp: Let_def)
qed auto

lemma chainLoop_attach:
  assumes "\<forall>(n, a) \<in> set links. \<not> isLoggerLevel n"
    and "attach (CallExpr f0 a0) links = CallExpr f a"
  shows "chainLoop f a m acc =
         chainLoop f0 a0 m (List.map_filter (\<lambda>(n, a). convertFieldToSlogAttr n a) links @ acc)"
  using assms
proof (induction links arbitrary: f a acc rule: rev_induct)
  case Nil
  then show ?case by (simp add: attach_Nil List.map_filter_simps)
next
  case (snoc x xs)
  obtain n args where x: "x = (n, args)" by (cases x)
  obtain f' a' where in': "attach (CallExpr f0 a0) xs = CallExpr f' a'"
    using attach_is_call by blast
  from snoc.prems x in' have fa: "f = SelectorExpr (CallExpr f' a') n" "a = args"
    by (simp_all add: attach_snoc)
  from snoc.prems x have nl: "\<not> isLoggerLevel n"
    and rest: "\<forall>(n, a) \<in> set xs. \<not> isLoggerLevel n"
    by auto
  show ?case
    using snoc.IH[OF rest in'] nl
    by (simp add: fa x List.map_filter_def split: option.splits)
qed

lemma buildSlogLogAttrsCall_eq:
  "buildSlogLogAttrsCall levelStr message slogAttrs =
     Inr (CallExpr (SelectorExpr (Ident ''slog'') ''LogAttrs'')
       ([Ident ''ctx'',
         SelectorExpr (Ident ''slog'')
           (if levelStr = ''Trace'' then ''LevelTrace''
            else if levelStr = ''Debug'' then ''LevelDebug''
            else if levelStr = ''Info'' then ''LevelInfo''
            else if levelStr = ''Warn'' then ''LevelWarn''
            else if levelStr = ''Error'' \<or> levelStr = ''Fatal'' \<or> levelStr = ''Panic''
              then ''LevelError''
            else ''LevelInfo''),
         message] @ slogAttrs))"
  by (simp add: buildSlogLogAttrsCall_def logLevels_def index_def Let_def)

lemma Visit_chain_stmt:
  \<open>Visit v key (ExprStmt (CallExpr (SelectorExpr (CallExpr hf ha) t) targs) d) =
    (if t \<noteq> ''Msg'' \<and> t \<noteq> ''Msgf'' \<and> t \<noteq> ''Send'' then Inr (v, True)
     else if t \<noteq> ''Send'' \<and> targs = [] then Inl IndexOutOfRange
     else (case chainLoop hf ha (if t = ''Send'' then BasicLit token_STRING ''"zerolog event"'' else hd targs) [] of
             (l, None, as) \<Rightarrow> Inr (v, True)
           | (l, Some m, as) \<Rightarrow>
               (case buildSlogLogAttrsCall l m as of
                  Inl e \<Rightarrow> Inl e
                | Inr c \<Rightarrow> Inr (record_replacement v key (ExprStmt c d), False))))\<close>
  by (cases targs) (auto simp: extractZerologChain_def split: prod.splits option.splits sum.splits)

lemma Visit_chain_outcomes:
  fixes hf ha t targs d v key
  defines "s \<equiv> ExprStmt (CallExpr (SelectorExpr (CallExpr hf ha) t) targs) d"
  shows "(Visit v key s = Inl IndexOutOfRange \<and> targs = [] \<and> (t = ''Msg'' \<or> t = ''Msgf''))
       \<or> (Visit v key s = Inr (v, True) \<and> \<not> (targs = [] \<and> (t = ''Msg'' \<or> t = ''Msgf'')))
       \<or> (\<exists>c. Visit v key s = Inr (record_replacement v key (ExprStmt c d), False)
              \<and> \<not> (targs = [] \<and> (t = ''Msg'' \<or> t = ''Msgf'')))"
proof (cases "t \<noteq> ''Msg'' \<and> t \<noteq> ''Msgf'' \<and> t \<noteq> ''Send''")
  case True
  then show ?thesis unfolding s_def Visit_chain_stmt by simp
next
  case nt: False
  show ?thesis
  proof (cases "t \<noteq> ''Send'' \<and> targs = []")
    case True
    with nt show ?thesis unfolding s_def Visit_chain_stmt by auto
  next
    case False
    obtain l mo as where cl: \<open>chainLoop hf ha (if t = ''Send'' then BasicLit token_STRING ''"zerolog event"'' else hd targs) [] = (l, mo, as)\<close>
      by (rule prod_cases3)
    have ne: "\<not> (targs = [] \<and> (t = ''Msg'' \<or> t = ''Msgf''))"
      using False by auto
    show ?thesis
    proof (cases mo)
      case None
      have "Visit v key s = Inr (v, True)"
        unfolding s_def Visit_chain_stmt using nt False cl None by simp
      with ne show ?thesis by simp
    next
      case (Some m)
      obtain c where "buildSlogLogAttrsCall l m as = Inr c"
        using buildSlogLogAttrsCall_eq by blast
      then have "\<exists>c. Visit v key s = Inr (record_replacement v key (ExprStmt c d), False)"
        unfolding s_def Visit_chain_stmt using nt False cl Some
        by auto
      with ne show ?thesis by simp
    qed
  qed
qed

lemma Visit_shapes:
  obtains (chain) hf ha t targs d where "n = ExprStmt (CallExpr (SelectorExpr (CallExpr hf ha) t) targs) d"
  | (import) nm k p d where "n = ImportSpec nm k p d"
  | (other) "\<And>v key. Visit v key n = Inr (v, True)"
     "\<And>hf ha t targs d. n \<noteq> ExprStmt (CallExpr (SelectorExpr (CallExpr hf ha) t) targs) d"
     "\<And>nm k p d. n \<noteq> ImportSpec nm k p d"
proof (cases n)
  case (ExprStmt X d)
  show ?thesis
  proof (cases X)
    case (CallExpr F targs)
    show ?thesis
    proof (cases F)
      case (SelectorExpr H t)
      show ?thesis
        by (cases H) (use ExprStmt CallExpr SelectorExpr in \<open>auto intro: chain other\<close>)
    qed (use ExprStmt CallExpr in \<open>auto intro: other\<close>)
  qed (use ExprStmt in \<open>auto intro: other\<close>)
qed (auto intro: import other)

lemma Visit_panic_iff:
  "Visit v key n = Inl e \<longleftrightarrow>
     (\<exists>hf ha t d. n = ExprStmt (CallExpr (SelectorExpr (CallExpr hf ha) t) []) d
        \<and> (t = ''Msg'' \<or> t = ''Msgf''))"
proof (cases n rule: Visit_shapes)
  case (chain hf ha t targs d)
  show ?thesis
    using Visit_chain_outcomes[of v key hf ha t targs d] unfolding chain
    by (cases e) auto
next
  case (import nm k p d)
  then show ?thesis by simp
next
  case other
  then show ?thesis by simp
qed

lemma Visit_replaced:
  assumes "Visit v key n = Inr (v', False)"
  shows \<open>(\<exists>X d c. n = ExprStmt X d \<and> v' = record_replacement v key (ExprStmt c d)) \<or>
         (\<exists>nm k p d. n = ImportSpec nm k p d \<and>
            v' = record_replacement v key (ImportSpec None token_STRING ''"log/slog"'' d))\<close>
proof (cases n rule: Visit_shapes)
  case (chain hf ha t targs d)
  show ?thesis
    using Visit_chain_outcomes[of v key hf ha t targs d] assms unfolding chain
    by auto
next
  case (import nm k p d)
  with assms show ?thesis by (auto split: if_splits)
next
  case other
  with assms show ?thesis by simp
qed

lemma Visit_descend:
  assumes "Visit v key n = Inr (v', True)"
  shows "v' = v"
proof (cases n rule: Visit_shapes)
  case (chain hf ha t targs d)
  show ?thesis
    using Visit_chain_outcomes[of v key hf ha t targs d] assms unfolding chain
    by auto
next
  case (import nm k p d)
  with assms show ?thesis by (auto split: if_splits)
next
  case other
  with assms show ?thesis by simp
qed


lemma Visit_chain_cong:
  assumes "\<And>m. chainLoop hf ha m [] = chainLoop hf' ha' m []"
  shows "Visit v key (ExprStmt (CallExpr (SelectorExpr (CallExpr hf ha) t) targs) d) =
         Visit v key (ExprStmt (CallExpr (SelectorExpr (CallExpr hf' ha') t) targs) d)"
  unfolding Visit_chain_stmt assms ..

lemma buildSlogLogAttrsCall_shape:
  "\<exists>levelExpr. \<forall>message slogAttrs. buildSlogLogAttrsCall levelStr message slogAttrs =
     Inr (CallExpr (SelectorExpr (Ident ''slog'') ''LogAttrs'')
            ([Ident ''ctx'', levelExpr, message] @ slogAttrs))"
  unfolding buildSlogLogAttrsCall_eq by blast

lemma map_filter_all_Some:
  "list_all2 (\<lambda>x y. f x = Some y) xs ys \<Longrightarrow> List.map_filter f xs = ys"
  by (induction xs ys rule: list_all2_induct) (simp_all add: List.map_filter_simps)

lemma Visit_level_chain:
  assumes lvl: "isLoggerLevel level"
    and links: "\<forall>(n, a) \<in> set links. \<not> isLoggerLevel n"
    and tm: "(termFunc = ''Msg'' \<or> termFunc = ''Msgf'') \<and> termArgs \<noteq> [] \<or> termFunc = ''Send''"
  shows \<open>
    Visit v key (ExprStmt (CallExpr (SelectorExpr
        (attach (CallExpr (SelectorExpr (Ident root) level) levelArgs) links) termFunc) termArgs) decs) =
    (case buildSlogLogAttrsCall level
            (if termFunc = ''Send'' then BasicLit token_STRING ''"zerolog event"'' else hd termArgs)
            (List.map_filter (\<lambda>(n, a). convertFieldToSlogAttr n a) links) of
       Inl e \<Rightarrow> Inl e
     | Inr c \<Rightarrow> Inr (record_replacement v key (ExprStmt c decs), False))\<close>
proof -
  obtain f a where fa: "attach (CallExpr (SelectorExpr (Ident root) level) levelArgs) links = CallExpr f a"
    using attach_is_call by blast
  have loop: "chainLoop f a m [] =
      (level, Some m, List.map_filter (\<lambda>(n, a). convertFieldToSlogAttr n a) links)" for m
    using chainLoop_attach[OF links fa, of m "[]"] lvl by simp
  show ?thesis
    unfolding fa Visit_chain_stmt loop using tm by auto
qed

lemma Visit_trailing_args:
  "Visit v key (ExprStmt (CallExpr (SelectorExpr (CallExpr hf ha) t) (first # trailing)) d) =
   Visit v key (ExprStmt (CallExpr (SelectorExpr (CallExpr hf ha) t) [first]) d)"
  unfolding Visit_chain_stmt by simp

lemmas eval_simps = extractZerologChain_def isLoggerLevel_def logLevels_def
  convertFieldToSlogAttr_def slogAttrCall_def buildSlogLogAttrsCall_eq record_replacement_def
  attach_def

section \<open>Facts about the traversal\<close>

lemma Visit_outcome:
  assumes "Visit v p n = Inr (w, d)"
  shows "(d \<and> w = v) \<or> (\<not> d \<and> (\<exists>new. w = record_replacement v p new))"
proof (cases d)
  case True
  with assms have "Visit v p n = Inr (w, True)" by simp
  from Visit_descend[OF this] True show ?thesis by simp
next
  case False
  with assms have "Visit v p n = Inr (w, False)" by simp
  from Visit_replaced[OF this] False show ?thesis by blast
qed

lemma Walk_Ident: "Walk v p (Ident name) = Inr v"
  by simp

lemma Walk_BasicLit: "Walk v p (BasicLit kind val) = Inr v"
  by simp

lemma Walk_SelectorExpr: "Walk v p (SelectorExpr X sel) = Walk v (p @ [0]) X"
  by simp

lemma Walk_CallExpr:
  "Walk v p (CallExpr f args) =
     (case Walk v (p @ [0]) f of Inl e \<Rightarrow> Inl e | Inr w \<Rightarrow> walkList w p 1 args)"
  by simp

lemma Walk_Other: "Walk v p (Other kind children) = walkList v p 0 children"
  by simp

lemma Walk_ImportSpec:
  "Visit v p (ImportSpec name kind val decs) = Inr (w, d) \<Longrightarrow>
     Walk v p (ImportSpec name kind val decs) = Inr w"
  by (auto simp del: Visit.simps)

lemma Walk_ExprStmt:
  "Walk v p (ExprStmt X decs) =
     (case Visit v p (ExprStmt X decs) of
        Inl e \<Rightarrow> Inl e
      | Inr (w, descend) \<Rightarrow> if descend then Walk v (p @ [0]) X else Inr w)"
proof (cases "Visit v p (ExprStmt X decs)")
  case (Inl e)
  then show ?thesis by (simp del: Visit.simps)
next
  case (Inr b)
  obtain w d where b: "b = (w, d)" by (cases b)
  show ?thesis
  proof (cases d)
    case True
    with Inr b have "Visit v p (ExprStmt X decs) = Inr (w, True)" by simp
    from this Visit_descend[OF this] show ?thesis by (simp del: Visit.simps)
  next
    case False
    with Inr b show ?thesis by (simp del: Visit.simps)
  qed
qed

lemma node_path_induct [case_names Ident BasicLit SelectorExpr CallExpr ExprStmt ImportSpec Other Nil Cons]:
  fixes P :: "path \<Rightarrow> node \<Rightarrow> bool" and Q :: "path \<Rightarrow> nat \<Rightarrow> node list \<Rightarrow> bool"
  assumes "\<And>p name. P p (Ident name)"
    and "\<And>p kind val. P p (BasicLit kind val)"
    and "\<And>p X sel. P (p @ [0]) X \<Longrightarrow> P p (SelectorExpr X sel)"
    and "\<And>p f args. P (p @ [0]) f \<Longrightarrow> Q p 1 args \<Longrightarrow> P p (CallExpr f args)"
    and "\<And>p X decs. P (p @ [0]) X \<Longrightarrow> P p (ExprStmt X decs)"
    and "\<And>p name kind val decs. P p (ImportSpec name kind val decs)"
    and "\<And>p kind children. Q p 0 children \<Longrightarrow> P p (Other kind children)"
    and "\<And>p i. Q p i []"
    and "\<And>p i n ns. P (p @ [i]) n \<Longrightarrow> Q p (Suc i) ns \<Longrightarrow> Q p i (n # ns)"
  shows "P p n" and "Q p i ns"
proof -
  note I = Apply_applyList.induct[where P = "\<lambda>r. P" and Q = "\<lambda>r. Q"]
  show "P p n"
    apply (rule I(1))
    subgoal by (rule assms(1))
    subgoal by (rule assms(2))
    subgoal by (rule assms(3))
    subgoal premises prems by (rule assms(4)[OF prems(1) prems(2)[OF refl]])
    subgoal by (rule assms(5))
    subgoal by (rule assms(6))
    subgoal by (rule assms(7))
    subgoal by (rule assms(8))
    subgoal by (rule assms(9))
    done
  show "Q p i ns"
    apply (rule I(2))
    subgoal by (rule assms(1))
    subgoal by (rule assms(2))
    subgoal by (rule assms(3))
    subgoal premises prems by (rule assms(4)[OF prems(1) prems(2)[OF refl]])
    subgoal by (rule assms(5))
    subgoal by (rule assms(6))
    subgoal by (rule assms(7))
    subgoal by (rule assms(8))
    subgoal by (rule assms(9))
    done
qed

lemma not_prefix_snoc: "\<not> prefix p q \<Longrightarrow> \<not> prefix (p @ [j]) q"
proof
  assume "\<not> prefix p q" and "prefix (p @ [j]) q"
  from this(2) have "prefix p q" by (rule append_prefixD)
  with \<open>\<not> prefix p q\<close> show False by simp
qed

lemma Visit_frame:
  assumes "Visit v p n = Inr (w, d)" and "q \<noteq> p"
  shows "Replacements w q = Replacements v q"
proof -
  from Visit_outcome[OF assms(1)] consider "w = v" | new where "w = record_replacement v p new"
    by blast
  then show ?thesis
  proof cases
    case 1
    then show ?thesis by simp
  next
    case 2
    with assms(2) show ?thesis by (simp add: record_replacement_def)
  qed
qed

lemma Walk_CallExpr_Inr:
  assumes "Walk v p (CallExpr f args) = Inr v'"
  obtains w where "Walk v (p @ [0]) f = Inr w" and "walkList w p 1 args = Inr v'"
proof (cases "Walk v (p @ [0]) f")
  case (Inl e)
  with assms show ?thesis by (simp only: Walk_CallExpr sum.case sum.distinct)
next
  case (Inr w)
  with assms have "walkList w p 1 args = Inr v'" by (simp only: Walk_CallExpr sum.case)
  with Inr that show ?thesis by blast
qed

lemma walkList_Cons_Inr:
  assumes "walkList v p i (n # ns) = Inr v'"
  obtains w where "Walk v (p @ [i]) n = Inr w" and "walkList w p (Suc i) ns = Inr v'"
proof (cases "Walk v (p @ [i]) n")
  case (Inl e)
  with assms show ?thesis by (simp only: walkList.simps sum.case sum.distinct)
next
  case (Inr w)
  with assms have "walkList w p (Suc i) ns = Inr v'" by (simp only: walkList.simps sum.case)
  with Inr that show ?thesis by blast
qed

lemma Walk_ExprStmt_Inr:
  assumes "Walk v p (ExprStmt X decs) = Inr v'"
  obtains (descend) "Visit v p (ExprStmt X decs) = Inr (v, True)" and "Walk v (p @ [0]) X = Inr v'"
  | (replaced) "Visit v p (ExprStmt X decs) = Inr (v', False)"
proof (cases "Visit v p (ExprStmt X decs)")
  case (Inl e)
  with assms show ?thesis by (simp only: Walk_ExprStmt sum.case sum.distinct)
next
  case (Inr b)
  obtain w d where b: "b = (w, d)" by (cases b)
  show ?thesis
  proof (cases d)
    case True
    with Inr b have vis: "Visit v p (ExprStmt X decs) = Inr (w, True)" by simp
    from Visit_descend[OF vis] have wv: "w = v" .
    from assms vis have "Walk v (p @ [0]) X = Inr v'"
      by (simp only: Walk_ExprStmt sum.case prod.case if_True)
    with vis wv descend show ?thesis by simp
  next
    case False
    with Inr b have vis: "Visit v p (ExprStmt X decs) = Inr (w, False)" by simp
    from assms vis have "w = v'"
      by (simp only: Walk_ExprStmt sum.case prod.case if_False sum.inject)
    with vis replaced show ?thesis by simp
  qed
qed

lemma Walk_ImportSpec_Inr:
  assumes "Walk v p (ImportSpec name kind val decs) = Inr v'"
  obtains d where "Visit v p (ImportSpec name kind val decs) = Inr (v', d)"
proof -
  obtain u d where vis: "Visit v p (ImportSpec name kind val decs) = Inr (u, d)"
    by (cases \<open>val = ''"github.com/rs/zerolog/log"''\<close>) auto
  from Walk_ImportSpec[OF vis] assms have "v' = u" by simp
  with vis that show ?thesis by simp
qed

lemma Walk_frame:
  "\<forall>v v'. Walk v p n = Inr v' \<longrightarrow> \<not> prefix p q \<longrightarrow> Replacements v' q = Replacements v q"
  "\<forall>v v'. walkList v p i ns = Inr v' \<longrightarrow> (\<forall>j\<ge>i. \<not> prefix (p @ [j]) q) \<longrightarrow>
     Replacements v' q = Replacements v q"
proof (induction p n and p i ns rule: node_path_induct)
  case (Ident p name)
  show ?case by (simp only: Walk_Ident sum.inject) simp
next
  case (BasicLit p kind val)
  show ?case by (simp only: Walk_BasicLit sum.inject) simp
next
  case (SelectorExpr p X sel)
  show ?case
  proof (intro allI impI)
    fix v v'
    assume w: "Walk v p (SelectorExpr X sel) = Inr v'" and np: "\<not> prefix p q"
    from w have "Walk v (p @ [0]) X = Inr v'" by (simp only: Walk_SelectorExpr)
    from SelectorExpr.IH[rule_format, OF this not_prefix_snoc[OF np]]
    show "Replacements v' q = Replacements v q" .
  qed
next
  case (CallExpr p f args)
  show ?case
  proof (intro allI impI)
    fix v v'
    assume w: "Walk v p (CallExpr f args) = Inr v'" and np: "\<not> prefix p q"
    from w obtain w' where wf: "Walk v (p @ [0]) f = Inr w'"
      and wl: "walkList w' p 1 args = Inr v'"
      by (rule Walk_CallExpr_Inr)
    note njs = not_prefix_snoc[OF np]
    from CallExpr.IH(1)[rule_format, OF wf not_prefix_snoc[OF np]]
    have "Replacements w' q = Replacements v q" .
    moreover from CallExpr.IH(2)[rule_format, OF wl njs]
    have "Replacements v' q = Replacements w' q" .
    ultimately show "Replacements v' q = Replacements v q" by simp
  qed
next
  case (ExprStmt p X decs)
  show ?case
  proof (intro allI impI)
    fix v v'
    assume w: "Walk v p (ExprStmt X decs) = Inr v'" and np: "\<not> prefix p q"
    have qp: "q \<noteq> p" using np by auto
    from w show "Replacements v' q = Replacements v q"
    proof (cases rule: Walk_ExprStmt_Inr)
      case descend
      from ExprStmt.IH[rule_format, OF descend(2) not_prefix_snoc[OF np]] show ?thesis .
    next
      case replaced
      from Visit_frame[OF replaced qp] show ?thesis .
    qed
  qed
next
  case (ImportSpec p name kind val decs)
  show ?case
  proof (intro allI impI)
    fix v v'
    assume w: "Walk v p (ImportSpec name kind val decs) = Inr v'" and np: "\<not> prefix p q"
    have qp: "q \<noteq> p" using np by auto
    from w obtain d where vis: "Visit v p (ImportSpec name kind val decs) = Inr (v', d)"
      by (rule Walk_ImportSpec_Inr)
    from Visit_frame[OF vis qp] show "Replacements v' q = Replacements v q" .
  qed
next
  case (Other p kind children)
  show ?case
  proof (intro allI impI)
    fix v v'
    assume w: "Walk v p (Other kind children) = Inr v'" and np: "\<not> prefix p q"
    note nj = not_prefix_snoc[OF np]
    from w have "walkList v p 0 children = Inr v'" by (simp only: Walk_Other)
    from Other.IH[rule_format, OF this nj]
    show "Replacements v' q = Replacements v q" .
  qed
next
  case (Nil p i)
  show ?case by (simp only: walkList.simps sum.inject) simp
next
  case (Cons p i n ns)
  show ?case
  proof (intro allI impI)
    fix v v'
    assume w: "walkList v p i (n # ns) = Inr v'" and np: "\<forall>j\<ge>i. \<not> prefix (p @ [j]) q"
    from w obtain w' where wn: "Walk v (p @ [i]) n = Inr w'"
      and wl: "walkList w' p (Suc i) ns = Inr v'"
      by (rule walkList_Cons_Inr)
    have ni: "\<not> prefix (p @ [i]) q" using np by simp
    have nS: "\<not> prefix (p @ [j]) q" if "Suc i \<le> j" for j using np that by simp
    from Cons.IH(1)[rule_format, OF wn ni] have "Replacements w' q = Replacements v q" .
    moreover from Cons.IH(2)[rule_format, OF wl nS] have "Replacements v' q = Replacements w' q" .
    ultimately show "Replacements v' q = Replacements v q" by simp
  qed
qed

lemma no_stmt_Walk:
  "no_stmt n \<longrightarrow> (\<forall>v. Walk v p n = Inr v)"
  "list_all no_stmt ns \<longrightarrow> (\<forall>v. walkList v p i ns = Inr v)"
proof (induction p n and p i ns rule: node_path_induct)
  case (CallExpr p f args)
  then show ?case by (simp only: Walk_CallExpr no_stmt.simps) simp
next
  case (ExprStmt p X decs)
  show ?case by (simp only: no_stmt.simps) simp
next
  case (ImportSpec p name kind val decs)
  show ?case by (simp only: no_stmt.simps) simp
next
  case (SelectorExpr p X sel)
  then show ?case by (simp only: Walk_SelectorExpr no_stmt.simps) 
next
  case (Other p kind children)
  then show ?case by (simp only: Walk_Other no_stmt.simps)
next
  case (Cons p i n ns)
  then show ?case by (simp only: walkList.simps list.pred_inject) simp
qed (simp_all only: Walk_Ident Walk_BasicLit walkList.simps, simp_all)

lemma convert_no_stmt_aux:
  assumes "list_all no_stmt args"
  shows "pred_option no_stmt (convertFieldToSlogAttr name args)"
proof -
  have two: "length args = 2 \<Longrightarrow> no_stmt (args ! 0) \<and> no_stmt (args ! Suc 0)"
    using assms by (simp add: list_all_length)
  show ?thesis
    unfolding convertFieldToSlogAttr_def using assms two
    by (simp add: slogAttrCall_def)
qed

lemma convert_no_stmt:
  assumes "convertFieldToSlogAttr name args = Some c" and "list_all no_stmt args"
  shows "no_stmt c"
  using convert_no_stmt_aux[OF assms(2), of name] assms(1) by simp

lemma chainLoop_no_stmt:
  "chainLoop f a m acc = (l, mo, as) \<Longrightarrow> no_stmt f \<Longrightarrow> list_all no_stmt a \<Longrightarrow>
     list_all no_stmt acc \<Longrightarrow> list_all no_stmt as"
proof (induction f a m acc rule: chainLoop.induct)
  case (1 X funcName args message slogAttrs)
  show ?case
  proof (cases "isLoggerLevel funcName")
    case True
    with "1.prems" show ?thesis by (cases X) auto
  next
    case False
    let ?acc = "case convertFieldToSlogAttr funcName args of
                  Some attrCall \<Rightarrow> attrCall # slogAttrs | None \<Rightarrow> slogAttrs"
    have acc: "list_all no_stmt ?acc"
      using "1.prems"(3,4) convert_no_stmt[of funcName args]
      by (auto split: option.splits)
    show ?thesis
    proof (cases X)
      case (CallExpr pf pa)
      with "1.prems" False have cl: "chainLoop pf pa message ?acc = (l, mo, as)"
        by (simp add: Let_def)
      from "1.prems"(2) CallExpr have ns: "no_stmt pf" "list_all no_stmt pa" by simp_all
      from "1.IH"[OF False refl CallExpr cl ns acc] show ?thesis .
    qed (use "1.prems" False in auto)
  qed
qed auto

lemma chainLoop_Some_iff:
  "(fst (snd (chainLoop f a m acc)) \<noteq> None) = chainOk f"
proof (induction f a m acc rule: chainLoop.induct)
  case (1 X funcName args message slogAttrs)
  show ?case
  proof (cases "isLoggerLevel funcName")
    case True
    then show ?thesis by (cases X) auto
  next
    case False
    show ?thesis
    proof (cases X)
      case (CallExpr pf pa)
      with "1.IH"[OF False refl CallExpr] False show ?thesis by (simp add: Let_def)
    qed (use False in auto)
  qed
qed auto

lemma chainOk_spine: "chainOk (spine f) = chainOk f"
proof (induction f rule: chainOk.induct)
  case (1 X funcName)
  show ?case
  proof (cases X)
    case (CallExpr pf pa)
    with 1 show ?thesis by (cases "isLoggerLevel funcName") simp_all
  qed simp_all
qed simp_all

lemma Visit_chain_descend_iff:
  "Visit v p (ExprStmt (CallExpr (SelectorExpr (CallExpr hf ha) t) targs) d) = Inr (v, True) \<longleftrightarrow>
     \<not> ((t = ''Msg'' \<or> t = ''Msgf'' \<or> t = ''Send'') \<and> ((t \<noteq> ''Send'' \<and> targs = []) \<or> chainOk hf))"
proof -
  let ?s = "ExprStmt (CallExpr (SelectorExpr (CallExpr hf ha) t) targs) d"
  show ?thesis
  proof (cases "t \<noteq> ''Msg'' \<and> t \<noteq> ''Msgf'' \<and> t \<noteq> ''Send''")
    case True
    then show ?thesis unfolding Visit_chain_stmt by auto
  next
    case nt: False
    show ?thesis
    proof (cases "t \<noteq> ''Send'' \<and> targs = []")
      case True
      with nt show ?thesis unfolding Visit_chain_stmt by auto
    next
      case False
      obtain l mo as where cl: \<open>chainLoop hf ha
          (if t = ''Send'' then BasicLit token_STRING ''"zerolog event"'' else hd targs) [] = (l, mo, as)\<close>
        by (rule prod_cases3)
      from chainLoop_Some_iff[of hf ha _ "[]"] cl have ok: "chainOk hf \<longleftrightarrow> mo \<noteq> None"
        by (metis fst_conv snd_conv)
      show ?thesis
      proof (cases mo)
        case None
        with nt False cl ok show ?thesis unfolding Visit_chain_stmt by auto
      next
        case (Some m)
        obtain c where c: "buildSlogLogAttrsCall l m as = Inr c"
          using buildSlogLogAttrsCall_shape by blast
        with Some nt False cl ok show ?thesis
          unfolding Visit_chain_stmt by auto
      qed
    qed
  qed
qed

lemma spine_eq_CallExpr: "spine n = CallExpr a b \<Longrightarrow> \<exists>f args. n = CallExpr f args \<and> spine f = a"
  by (cases n) simp_all

lemma spine_eq_SelectorExpr: "spine n = SelectorExpr a s \<Longrightarrow> \<exists>X. n = SelectorExpr X s \<and> spine X = a"
  by (cases n) simp_all

lemma Visit_not_chain:
  assumes "\<And>hf ha t targs. X \<noteq> CallExpr (SelectorExpr (CallExpr hf ha) t) targs"
  shows "Visit v p (ExprStmt X d) = Inr (v, True)"
proof (cases "ExprStmt X d" rule: Visit_shapes)
  case (chain hf ha t targs d')
  then have "X = CallExpr (SelectorExpr (CallExpr hf ha) t) targs" by simp
  with assms show ?thesis by blast
next
  case (import nm k val d')
  then show ?thesis by simp
next
  case other
  from other(1) show ?thesis .
qed

lemma Visit_stmt_cases:
  obtains (chain) hf ha t targs where "X = CallExpr (SelectorExpr (CallExpr hf ha) t) targs"
  | (other) "\<And>hf ha t targs. X \<noteq> CallExpr (SelectorExpr (CallExpr hf ha) t) targs"
  by blast

lemma Visit_spine_descend:
  "Visit v p (ExprStmt (spine X) d) = Inr (v, True) \<longleftrightarrow> Visit v p (ExprStmt X d) = Inr (v, True)"
proof (cases X rule: Visit_stmt_cases)
  case (chain hf ha t targs)
  show ?thesis
    unfolding chain spine.simps Visit_chain_descend_iff chainOk_spine by simp
next
  case other
  have "spine X \<noteq> CallExpr (SelectorExpr (CallExpr hf ha) t) targs" for hf ha t targs
  proof
    assume 1: "spine X = CallExpr (SelectorExpr (CallExpr hf ha) t) targs"
    from spine_eq_CallExpr[OF 1] obtain F A where X: "X = CallExpr F A"
      and F: "spine F = SelectorExpr (CallExpr hf ha) t" by blast
    from spine_eq_SelectorExpr[OF F] obtain H where FH: "F = SelectorExpr H t"
      and H: "spine H = CallExpr hf ha" by blast
    from spine_eq_CallExpr[OF H] obtain hf' ha' where "H = CallExpr hf' ha'" by blast
    with X FH other[of hf' ha' t A] show False by simp
  qed
  from Visit_not_chain[OF this] Visit_not_chain[OF other] show ?thesis by simp
qed

lemma Visit_descend_indep:
  assumes "Visit v p (ExprStmt X d) = Inr (v, True)"
  shows "Visit w k (ExprStmt X d') = Inr (w, True)"
proof (cases X rule: Visit_stmt_cases)
  case (chain hf ha t targs)
  from assms show ?thesis unfolding chain Visit_chain_descend_iff .
next
  case other
  from Visit_not_chain[OF other] show ?thesis .
qed

lemma Visit_same_spine:
  assumes "spine X' = spine X" and "Visit v p (ExprStmt X d) = Inr (v, True)"
  shows "Visit w k (ExprStmt X' d') = Inr (w, True)"
proof -
  from assms(2) have "Visit v p (ExprStmt (spine X) d) = Inr (v, True)"
    by (simp only: Visit_spine_descend)
  with assms(1) have "Visit v p (ExprStmt (spine X') d) = Inr (v, True)"
    by simp
  then have "Visit v p (ExprStmt X' d) = Inr (v, True)"
    by (simp only: Visit_spine_descend)
  then show ?thesis by (rule Visit_descend_indep)
qed

lemma Visit_replaced_indep:
  assumes "Visit v p (ExprStmt X d) = Inr (v', False)"
  shows "\<exists>w'. Visit w k (ExprStmt X d) = Inr (w', False)"
proof (cases X rule: Visit_stmt_cases)
  case (chain hf ha t targs)
  from Visit_chain_outcomes[of w k hf ha t targs d]
  consider (panic) "targs = [] \<and> (t = ''Msg'' \<or> t = ''Msgf'')"
    | (descend) "Visit w k (ExprStmt X d) = Inr (w, True)"
    | (replaced) c where "Visit w k (ExprStmt X d) = Inr (record_replacement w k (ExprStmt c d), False)"
    unfolding chain by blast
  then show ?thesis
  proof cases
    case panic
    with Visit_chain_outcomes[of v p hf ha t targs d] assms show ?thesis
      unfolding chain by auto
  next
    case descend
    from Visit_descend_indep[OF descend, of v p d] assms show ?thesis by simp
  next
    case replaced
    then show ?thesis by blast
  qed
next
  case other
  from Visit_not_chain[OF other, of v p d] assms show ?thesis by simp
qed

lemma replaces_ExprStmt_replaced:
  assumes "Visit v p (ExprStmt X d) = Inr (v', False)"
  shows "replaces (ExprStmt X d)"
proof -
  from Visit_replaced_indep[OF assms] obtain w'
    where "Visit \<lparr>Replacements = Map.empty\<rparr> [] (ExprStmt X d) = Inr (w', False)" by blast
  then show ?thesis by (simp only: replaces_def sum.case prod.case) simp
qed

lemma replaces_ExprStmt_descend:
  assumes "Visit v p (ExprStmt X d) = Inr (v, True)"
  shows "\<not> replaces (ExprStmt X d)"
proof -
  from Visit_descend_indep[OF assms]
  have "Visit \<lparr>Replacements = Map.empty\<rparr> [] (ExprStmt X d) = Inr (\<lparr>Replacements = Map.empty\<rparr>, True)" .
  then show ?thesis by (simp only: replaces_def sum.case prod.case) simp
qed

lemma buildSlogLogAttrsCall_level:
  "\<exists>levelName. \<forall>message slogAttrs. buildSlogLogAttrsCall levelStr message slogAttrs =
     Inr (CallExpr (SelectorExpr (Ident ''slog'') ''LogAttrs'')
            ([Ident ''ctx'', SelectorExpr (Ident ''slog'') levelName, message] @ slogAttrs))"
  unfolding buildSlogLogAttrsCall_eq by blast

lemma Visit_replaced_stmt:
  assumes "Visit v p (ExprStmt X d) = Inr (v', False)" and "no_stmt X"
  shows "\<exists>c. v' = record_replacement v p (ExprStmt c d) \<and> no_stmt c \<and>
              (\<forall>w k. Visit w k (ExprStmt c d) = Inr (w, True))"
proof (cases X rule: Visit_stmt_cases)
  case (chain hf ha t targs)
  let ?m = \<open>if t = ''Send'' then BasicLit token_STRING ''"zerolog event"'' else hd targs\<close>
  from assms(1) have tf: "t = ''Msg'' \<or> t = ''Msgf'' \<or> t = ''Send''"
    unfolding chain Visit_chain_stmt by (auto split: if_splits)
  from assms(1) have ne: "t = ''Send'' \<or> targs \<noteq> []"
    unfolding chain Visit_chain_stmt by (auto split: if_splits)
  obtain l mo as where cl: "chainLoop hf ha ?m [] = (l, mo, as)"
    by (rule prod_cases3)
  from assms(1) tf ne cl obtain m where mo: "mo = Some m"
    unfolding chain Visit_chain_stmt by (cases mo) auto
  have m: "m = ?m"
    using chainLoop_result[OF cl] mo by simp
  obtain levelName where c: "buildSlogLogAttrsCall l m' as =
      Inr (CallExpr (SelectorExpr (Ident ''slog'') ''LogAttrs'')
             ([Ident ''ctx'', SelectorExpr (Ident ''slog'') levelName, m'] @ as))" for m'
    using buildSlogLogAttrsCall_level by blast
  let ?c = "CallExpr (SelectorExpr (Ident ''slog'') ''LogAttrs'')
              ([Ident ''ctx'', SelectorExpr (Ident ''slog'') levelName, ?m] @ as)"
  have v': "v' = record_replacement v p (ExprStmt ?c d)"
    using assms(1) tf ne cl mo m c unfolding chain Visit_chain_stmt by auto
  from assms(2) have ns: "no_stmt hf" "list_all no_stmt ha" "list_all no_stmt targs"
    unfolding chain by simp_all
  from chainLoop_no_stmt[OF cl ns(1,2)] have as: "list_all no_stmt as" by simp
  have nm: "no_stmt ?m"
    using ne ns(3) by (cases targs) auto
  from as nm have "no_stmt ?c" by simp
  moreover have "Visit w k (ExprStmt ?c d) = Inr (w, True)" for w k by simp
  ultimately show ?thesis using v' by blast
next
  case other
  from Visit_not_chain[OF other, of v p d] assms show ?thesis by simp
qed

lemma length_applyList: "length (applyList r p i ns) = length ns"
  by (induction ns arbitrary: i) simp_all

lemma siblings_disjoint:
  assumes "prefix (p @ [i]) q" and "i \<noteq> j"
  shows "\<not> prefix (p @ [j]) q"
proof
  assume "prefix (p @ [j]) q"
  with assms(1) obtain a b where "q = (p @ [i]) @ a" "q = (p @ [j]) @ b"
    unfolding prefix_def by blast
  then have "[i] @ a = [j] @ b" by simp
  with assms(2) show False by simp
qed

lemma not_prefix_snoc_self: "\<not> prefix (p @ [j]) p"
  by (simp add: prefix_def)

lemma Apply_Some: "r p = Some new \<Longrightarrow> Apply r p n = new"
  by (cases n) (simp_all add: Let_def)

lemma Apply_None:
  assumes "r p = None"
  shows "Apply r p (Ident name) = Ident name"
    and "Apply r p (BasicLit kind val) = BasicLit kind val"
    and "Apply r p (SelectorExpr X sel) = SelectorExpr (Apply r (p @ [0]) X) sel"
    and "Apply r p (CallExpr f args) = CallExpr (Apply r (p @ [0]) f) (applyList r p 1 args)"
    and "Apply r p (ExprStmt X decs) = ExprStmt (Apply r (p @ [0]) X) decs"
    and "Apply r p (ImportSpec nm kind val decs) = ImportSpec nm kind val decs"
    and "Apply r p (Other k children) = Other k (applyList r p 0 children)"
  using assms by (simp_all add: Let_def)

lemma prefix_child: "prefix (p @ [j]) q \<Longrightarrow> prefix p q"
  by (rule append_prefixD)

lemma below_child:
  assumes "\<forall>q. prefix p q \<longrightarrow> P q"
  shows "\<forall>q. prefix (p @ [j]) q \<longrightarrow> P q"
proof (intro allI impI)
  fix q assume "prefix (p @ [j]) q"
  then have "prefix p q" by (rule append_prefixD)
  with assms show "P q" by simp
qed

lemma below_children:
  assumes "\<forall>q. prefix p q \<longrightarrow> P q"
  shows "\<forall>j\<ge>i. \<forall>q. prefix (p @ [j]) q \<longrightarrow> P q"
  using below_child[OF assms] by simp

subsection \<open>Running the traversal again on the rewritten tree\<close>


lemma stable_Ident:
  shows "(\<forall>v v' r. Walk v p (Ident name) = Inr v' \<longrightarrow>
      (\<forall>q. prefix p q \<longrightarrow> Replacements v q = None) \<longrightarrow>
      (\<forall>q. prefix p q \<longrightarrow> r q = Replacements v' q) \<longrightarrow>
      replaced_flat (Ident name) \<longrightarrow>
      (\<forall>w k. Walk w k (Apply r p (Ident name)) = Inr w) \<and> spine (Apply r p (Ident name)) = spine (Ident name))"
  proof (intro allI impI)
    fix v v' r
    assume w: "Walk v p (Ident name) = Inr v'"
      and emp: "\<forall>q. prefix p q \<longrightarrow> Replacements v q = None"
      and agr: "\<forall>q. prefix p q \<longrightarrow> r q = Replacements v' q"
    from w have "v' = v" by (simp only: Walk_Ident sum.inject)
    with emp agr have "r p = None" by simp
    then show "(\<forall>w k. Walk w k (Apply r p (Ident name)) = Inr w) \<and>
        spine (Apply r p (Ident name)) = spine (Ident name)"
      by (simp only: Apply_None Walk_Ident) simp
  qed

lemma stable_BasicLit:
  shows "(\<forall>v v' r. Walk v p (BasicLit kind val) = Inr v' \<longrightarrow>
      (\<forall>q. prefix p q \<longrightarrow> Replacements v q = None) \<longrightarrow>
      (\<forall>q. prefix p q \<longrightarrow> r q = Replacements v' q) \<longrightarrow>
      replaced_flat (BasicLit kind val) \<longrightarrow>
      (\<forall>w k. Walk w k (Apply r p (BasicLit kind val)) = Inr w) \<and> spine (Apply r p (BasicLit kind val)) = spine (BasicLit kind val))"
  proof (intro allI impI)
    fix v v' r
    assume w: "Walk v p (BasicLit kind val) = Inr v'"
      and emp: "\<forall>q. prefix p q \<longrightarrow> Replacements v q = None"
      and agr: "\<forall>q. prefix p q \<longrightarrow> r q = Replacements v' q"
    from w have "v' = v" by (simp only: Walk_BasicLit sum.inject)
    with emp agr have "r p = None" by simp
    then show "(\<forall>w k. Walk w k (Apply r p (BasicLit kind val)) = Inr w) \<and>
        spine (Apply r p (BasicLit kind val)) = spine (BasicLit kind val)"
      by (simp only: Apply_None Walk_BasicLit) simp
  qed

lemma stable_SelectorExpr:
  assumes IH1: "(\<forall>v v' r. Walk v (p @ [0]) X = Inr v' \<longrightarrow>
      (\<forall>q. prefix (p @ [0]) q \<longrightarrow> Replacements v q = None) \<longrightarrow>
      (\<forall>q. prefix (p @ [0]) q \<longrightarrow> r q = Replacements v' q) \<longrightarrow>
      replaced_flat X \<longrightarrow>
      (\<forall>w k. Walk w k (Apply r (p @ [0]) X) = Inr w) \<and> spine (Apply r (p @ [0]) X) = spine X)"
  shows "(\<forall>v v' r. Walk v p (SelectorExpr X sel) = Inr v' \<longrightarrow>
      (\<forall>q. prefix p q \<longrightarrow> Replacements v q = None) \<longrightarrow>
      (\<forall>q. prefix p q \<longrightarrow> r q = Replacements v' q) \<longrightarrow>
      replaced_flat (SelectorExpr X sel) \<longrightarrow>
      (\<forall>w k. Walk w k (Apply r p (SelectorExpr X sel)) = Inr w) \<and> spine (Apply r p (SelectorExpr X sel)) = spine (SelectorExpr X sel))"
  proof (intro allI impI)
    fix v v' r
    assume w: "Walk v p (SelectorExpr X sel) = Inr v'"
      and emp: "\<forall>q. prefix p q \<longrightarrow> Replacements v q = None"
      and agr: "\<forall>q. prefix p q \<longrightarrow> r q = Replacements v' q"
      and flat: "replaced_flat (SelectorExpr X sel)"
    from w have wX: "Walk v (p @ [0]) X = Inr v'" by (simp only: Walk_SelectorExpr)
    from Walk_frame(1)[rule_format, OF wX not_prefix_snoc_self]
    have "Replacements v' p = Replacements v p" .
    with emp agr have rp: "r p = None" by simp
    have emp0: "\<forall>q. prefix (p @ [0]) q \<longrightarrow> Replacements v q = None"
      by (rule below_child[OF emp])
    have agr0: "\<forall>q. prefix (p @ [0]) q \<longrightarrow> r q = Replacements v' q"
      by (rule below_child[OF agr])
    from flat have flatX: "replaced_flat X" by simp
    from IH1[rule_format, OF wX emp0[rule_format] agr0[rule_format] flatX]
    have IH: "\<And>w k. Walk w k (Apply r (p @ [0]) X) = Inr w"
      "spine (Apply r (p @ [0]) X) = spine X" by simp_all
    show "(\<forall>w k. Walk w k (Apply r p (SelectorExpr X sel)) = Inr w) \<and>
        spine (Apply r p (SelectorExpr X sel)) = spine (SelectorExpr X sel)"
      by (simp only: Apply_None[where r = r and p = p, OF rp] Walk_SelectorExpr IH spine.simps) simp
  qed

lemma stable_CallExpr:
  assumes IH1: "(\<forall>v v' r. Walk v (p @ [0]) f = Inr v' \<longrightarrow>
      (\<forall>q. prefix (p @ [0]) q \<longrightarrow> Replacements v q = None) \<longrightarrow>
      (\<forall>q. prefix (p @ [0]) q \<longrightarrow> r q = Replacements v' q) \<longrightarrow>
      replaced_flat f \<longrightarrow>
      (\<forall>w k. Walk w k (Apply r (p @ [0]) f) = Inr w) \<and> spine (Apply r (p @ [0]) f) = spine f)"
    and IH2: "(\<forall>v v' r. walkList v p 1 args = Inr v' \<longrightarrow>
      (\<forall>j\<ge>1. \<forall>q. prefix (p @ [j]) q \<longrightarrow> Replacements v q = None) \<longrightarrow>
      (\<forall>j\<ge>1. \<forall>q. prefix (p @ [j]) q \<longrightarrow> r q = Replacements v' q) \<longrightarrow>
      list_all replaced_flat args \<longrightarrow>
      (\<forall>w k i'. walkList w k i' (applyList r p 1 args) = Inr w))"
  shows "(\<forall>v v' r. Walk v p (CallExpr f args) = Inr v' \<longrightarrow>
      (\<forall>q. prefix p q \<longrightarrow> Replacements v q = None) \<longrightarrow>
      (\<forall>q. prefix p q \<longrightarrow> r q = Replacements v' q) \<longrightarrow>
      replaced_flat (CallExpr f args) \<longrightarrow>
      (\<forall>w k. Walk w k (Apply r p (CallExpr f args)) = Inr w) \<and> spine (Apply r p (CallExpr f args)) = spine (CallExpr f args))"
  proof (intro allI impI)
    fix v v' r
    assume w: "Walk v p (CallExpr f args) = Inr v'"
      and emp: "\<forall>q. prefix p q \<longrightarrow> Replacements v q = None"
      and agr: "\<forall>q. prefix p q \<longrightarrow> r q = Replacements v' q"
      and flat: "replaced_flat (CallExpr f args)"
    from w obtain u where wf: "Walk v (p @ [0]) f = Inr u"
      and wl: "walkList u p 1 args = Inr v'"
      by (rule Walk_CallExpr_Inr)
    have frame_f: "Replacements u q = Replacements v q" if "\<not> prefix (p @ [0]) q" for q
      using Walk_frame(1)[rule_format, OF wf that] .
    have frame_l: "Replacements v' q = Replacements u q" if "\<And>j. 1 \<le> j \<Longrightarrow> \<not> prefix (p @ [j]) q" for q
      using Walk_frame(2)[rule_format, OF wl that] .
    have "Replacements v' p = Replacements v p"
      using frame_l[of p] frame_f[of p] not_prefix_snoc_self by simp
    with emp agr have rp: "r p = None" by simp
    have emp0: "\<forall>q. prefix (p @ [0]) q \<longrightarrow> Replacements v q = None"
      by (rule below_child[OF emp])
    have agr0: "\<forall>q. prefix (p @ [0]) q \<longrightarrow> r q = Replacements u q"
    proof (intro allI impI)
      fix q assume q: "prefix (p @ [0]) q"
      then have "r q = Replacements v' q" using agr prefix_child[OF q] by simp
      also have "\<dots> = Replacements u q"
        using frame_l[of q] siblings_disjoint[OF q] by simp
      finally show "r q = Replacements u q" .
    qed
    have emp1: "\<forall>j\<ge>1. \<forall>q. prefix (p @ [j]) q \<longrightarrow> Replacements u q = None"
    proof (intro allI impI)
      fix j q assume j: "1 \<le> (j::nat)" and q: "prefix (p @ [j]) q"
      from j have "j \<noteq> 0" by simp
      from siblings_disjoint[OF q this] have "Replacements u q = Replacements v q"
        by (rule frame_f)
      also have "\<dots> = None" using emp prefix_child[OF q] by simp
      finally show "Replacements u q = None" .
    qed
    have agr1: "\<forall>j\<ge>1. \<forall>q. prefix (p @ [j]) q \<longrightarrow> r q = Replacements v' q"
      by (rule below_children[OF agr])
    from flat have flatf: "replaced_flat f" and flata: "list_all replaced_flat args" by simp_all
    from IH1[rule_format, OF wf emp0[rule_format] agr0[rule_format] flatf]
    have IHf: "\<And>w k. Walk w k (Apply r (p @ [0]) f) = Inr w"
      "spine (Apply r (p @ [0]) f) = spine f" by simp_all
    from IH2[rule_format, OF wl emp1[rule_format] agr1[rule_format] flata]
    have IHa: "\<And>w k i'. walkList w k i' (applyList r p 1 args) = Inr w" by simp
    show "(\<forall>w k. Walk w k (Apply r p (CallExpr f args)) = Inr w) \<and>
        spine (Apply r p (CallExpr f args)) = spine (CallExpr f args)"
      by (simp only: Apply_None[where r = r and p = p, OF rp] Walk_CallExpr IHf IHa spine.simps sum.case)
         (simp add: length_applyList map_replicate_const)
  qed

lemma stable_ExprStmt:
  assumes IH1: "(\<forall>v v' r. Walk v (p @ [0]) X = Inr v' \<longrightarrow>
      (\<forall>q. prefix (p @ [0]) q \<longrightarrow> Replacements v q = None) \<longrightarrow>
      (\<forall>q. prefix (p @ [0]) q \<longrightarrow> r q = Replacements v' q) \<longrightarrow>
      replaced_flat X \<longrightarrow>
      (\<forall>w k. Walk w k (Apply r (p @ [0]) X) = Inr w) \<and> spine (Apply r (p @ [0]) X) = spine X)"
  shows "(\<forall>v v' r. Walk v p (ExprStmt X decs) = Inr v' \<longrightarrow>
      (\<forall>q. prefix p q \<longrightarrow> Replacements v q = None) \<longrightarrow>
      (\<forall>q. prefix p q \<longrightarrow> r q = Replacements v' q) \<longrightarrow>
      replaced_flat (ExprStmt X decs) \<longrightarrow>
      (\<forall>w k. Walk w k (Apply r p (ExprStmt X decs)) = Inr w) \<and> spine (Apply r p (ExprStmt X decs)) = spine (ExprStmt X decs))"
  proof (intro allI impI)
    fix v v' r
    assume w: "Walk v p (ExprStmt X decs) = Inr v'"
      and emp: "\<forall>q. prefix p q \<longrightarrow> Replacements v q = None"
      and agr: "\<forall>q. prefix p q \<longrightarrow> r q = Replacements v' q"
      and flat: "replaced_flat (ExprStmt X decs)"
    from w show "(\<forall>w k. Walk w k (Apply r p (ExprStmt X decs)) = Inr w) \<and>
        spine (Apply r p (ExprStmt X decs)) = spine (ExprStmt X decs)"
    proof (cases rule: Walk_ExprStmt_Inr)
      case descend
      note vis = descend(1) and wX = descend(2)
      from Walk_frame(1)[rule_format, OF wX not_prefix_snoc_self]
      have "Replacements v' p = Replacements v p" .
      with emp agr have rp: "r p = None" by simp
      have emp0: "\<forall>q. prefix (p @ [0]) q \<longrightarrow> Replacements v q = None"
        by (rule below_child[OF emp])
      have agr0: "\<forall>q. prefix (p @ [0]) q \<longrightarrow> r q = Replacements v' q"
        by (rule below_child[OF agr])
      from flat replaces_ExprStmt_descend[OF vis] have flatX: "replaced_flat X" by simp
      from IH1[rule_format, OF wX emp0[rule_format] agr0[rule_format] flatX]
      have IH: "\<And>w k. Walk w k (Apply r (p @ [0]) X) = Inr w"
        "spine (Apply r (p @ [0]) X) = spine X" by simp_all
      have vis': "Visit w k (ExprStmt (Apply r (p @ [0]) X) decs) = Inr (w, True)" for w k
        using Visit_same_spine[OF IH(2) vis] .
      show ?thesis
        by (simp only: Apply_None[where r = r and p = p, OF rp] Walk_ExprStmt vis' IH spine.simps sum.case prod.case if_True)
           simp
    next
      case replaced
      from flat replaces_ExprStmt_replaced[OF replaced] have nsX: "no_stmt X" by simp
      from Visit_replaced_stmt[OF replaced nsX] obtain c
        where v': "v' = record_replacement v p (ExprStmt c decs)" and nsc: "no_stmt c"
          and vis': "\<And>w k. Visit w k (ExprStmt c decs) = Inr (w, True)" by blast
      from v' agr have rp: "r p = Some (ExprStmt c decs)"
        by (simp add: record_replacement_def)
      have "Walk w k (ExprStmt c decs) = Inr w" for w k
        by (simp only: Walk_ExprStmt vis' sum.case prod.case if_True
              no_stmt_Walk(1)[rule_format, OF nsc])
      then show ?thesis
        by (simp only: Apply_Some[where r = r and p = p, OF rp] spine.simps) simp
    qed
  qed

lemma stable_ImportSpec:
  shows "(\<forall>v v' r. Walk v p (ImportSpec name kind val decs) = Inr v' \<longrightarrow>
      (\<forall>q. prefix p q \<longrightarrow> Replacements v q = None) \<longrightarrow>
      (\<forall>q. prefix p q \<longrightarrow> r q = Replacements v' q) \<longrightarrow>
      replaced_flat (ImportSpec name kind val decs) \<longrightarrow>
      (\<forall>w k. Walk w k (Apply r p (ImportSpec name kind val decs)) = Inr w) \<and> spine (Apply r p (ImportSpec name kind val decs)) = spine (ImportSpec name kind val decs))"
  proof (intro allI impI)
    fix v v' r
    assume w: "Walk v p (ImportSpec name kind val decs) = Inr v'"
      and emp: "\<forall>q. prefix p q \<longrightarrow> Replacements v q = None"
      and agr: "\<forall>q. prefix p q \<longrightarrow> r q = Replacements v' q"
    show "(\<forall>w k. Walk w k (Apply r p (ImportSpec name kind val decs)) = Inr w) \<and>
        spine (Apply r p (ImportSpec name kind val decs)) = spine (ImportSpec name kind val decs)"
    proof (cases \<open>val = ''"github.com/rs/zerolog/log"''\<close>)
      case True
      with w have "v' = record_replacement v p (ImportSpec None token_STRING ''\"log/slog\"'' decs)"
        by simp
      with agr have rp: "r p = Some (ImportSpec None token_STRING ''\"log/slog\"'' decs)"
        by (simp add: record_replacement_def)
      show ?thesis
        by (simp only: Apply_Some[where r = r and p = p, OF rp]) simp
    next
      case False
      with w have "v' = v" by simp
      with emp agr have rp: "r p = None" by simp
      from False show ?thesis
        by (simp only: Apply_None[where r = r and p = p, OF rp]) simp
    qed
  qed

lemma stable_Other:
  assumes IH1: "(\<forall>v v' r. walkList v p 0 children = Inr v' \<longrightarrow>
      (\<forall>j\<ge>0. \<forall>q. prefix (p @ [j]) q \<longrightarrow> Replacements v q = None) \<longrightarrow>
      (\<forall>j\<ge>0. \<forall>q. prefix (p @ [j]) q \<longrightarrow> r q = Replacements v' q) \<longrightarrow>
      list_all replaced_flat children \<longrightarrow>
      (\<forall>w k i'. walkList w k i' (applyList r p 0 children) = Inr w))"
  shows "(\<forall>v v' r. Walk v p (Other kind children) = Inr v' \<longrightarrow>
      (\<forall>q. prefix p q \<longrightarrow> Replacements v q = None) \<longrightarrow>
      (\<forall>q. prefix p q \<longrightarrow> r q = Replacements v' q) \<longrightarrow>
      replaced_flat (Other kind children) \<longrightarrow>
      (\<forall>w k. Walk w k (Apply r p (Other kind children)) = Inr w) \<and> spine (Apply r p (Other kind children)) = spine (Other kind children))"
  proof (intro allI impI)
    fix v v' r
    assume w: "Walk v p (Other kind children) = Inr v'"
      and emp: "\<forall>q. prefix p q \<longrightarrow> Replacements v q = None"
      and agr: "\<forall>q. prefix p q \<longrightarrow> r q = Replacements v' q"
      and flat: "replaced_flat (Other kind children)"
    from w have wl: "walkList v p 0 children = Inr v'" by (simp only: Walk_Other)
    have "Replacements v' p = Replacements v p"
      by (rule Walk_frame(2)[rule_format, OF wl]) (rule not_prefix_snoc_self)
    with emp agr have rp: "r p = None" by simp
    have emp0: "\<forall>j\<ge>0. \<forall>q. prefix (p @ [j]) q \<longrightarrow> Replacements v q = None"
      by (rule below_children[OF emp])
    have agr0: "\<forall>j\<ge>0. \<forall>q. prefix (p @ [j]) q \<longrightarrow> r q = Replacements v' q"
      by (rule below_children[OF agr])
    from flat have flatc: "list_all replaced_flat children" by simp
    from IH1[rule_format, OF wl emp0[rule_format] agr0[rule_format] flatc]
    have IH: "\<And>w k i'. walkList w k i' (applyList r p 0 children) = Inr w" by simp
    show "(\<forall>w k. Walk w k (Apply r p (Other kind children)) = Inr w) \<and>
        spine (Apply r p (Other kind children)) = spine (Other kind children)"
      by (simp only: Apply_None[where r = r and p = p, OF rp] Walk_Other IH spine.simps) simp
  qed

lemma stable_Nil:
  shows "(\<forall>v v' r. walkList v p i [] = Inr v' \<longrightarrow>
      (\<forall>j\<ge>i. \<forall>q. prefix (p @ [j]) q \<longrightarrow> Replacements v q = None) \<longrightarrow>
      (\<forall>j\<ge>i. \<forall>q. prefix (p @ [j]) q \<longrightarrow> r q = Replacements v' q) \<longrightarrow>
      list_all replaced_flat [] \<longrightarrow>
      (\<forall>w k i'. walkList w k i' (applyList r p i []) = Inr w))"
 by simp

lemma stable_Cons:
  assumes IH1: "(\<forall>v v' r. Walk v (p @ [i]) n = Inr v' \<longrightarrow>
      (\<forall>q. prefix (p @ [i]) q \<longrightarrow> Replacements v q = None) \<longrightarrow>
      (\<forall>q. prefix (p @ [i]) q \<longrightarrow> r q = Replacements v' q) \<longrightarrow>
      replaced_flat n \<longrightarrow>
      (\<forall>w k. Walk w k (Apply r (p @ [i]) n) = Inr w) \<and> spine (Apply r (p @ [i]) n) = spine n)"
    and IH2: "(\<forall>v v' r. walkList v p (Suc i) ns = Inr v' \<longrightarrow>
      (\<forall>j\<ge>(Suc i). \<forall>q. prefix (p @ [j]) q \<longrightarrow> Replacements v q = None) \<longrightarrow>
      (\<forall>j\<ge>(Suc i). \<forall>q. prefix (p @ [j]) q \<longrightarrow> r q = Replacements v' q) \<longrightarrow>
      list_all replaced_flat ns \<longrightarrow>
      (\<forall>w k i'. walkList w k i' (applyList r p (Suc i) ns) = Inr w))"
  shows "(\<forall>v v' r. walkList v p i (n # ns) = Inr v' \<longrightarrow>
      (\<forall>j\<ge>i. \<forall>q. prefix (p @ [j]) q \<longrightarrow> Replacements v q = None) \<longrightarrow>
      (\<forall>j\<ge>i. \<forall>q. prefix (p @ [j]) q \<longrightarrow> r q = Replacements v' q) \<longrightarrow>
      list_all replaced_flat (n # ns) \<longrightarrow>
      (\<forall>w k i'. walkList w k i' (applyList r p i (n # ns)) = Inr w))"
  proof (intro allI impI)
    fix v v' r w k i'
    assume wk: "walkList v p i (n # ns) = Inr v'"
      and emp: "\<forall>j\<ge>i. \<forall>q. prefix (p @ [j]) q \<longrightarrow> Replacements v q = None"
      and agr: "\<forall>j\<ge>i. \<forall>q. prefix (p @ [j]) q \<longrightarrow> r q = Replacements v' q"
      and flat: "list_all replaced_flat (n # ns)"
    from wk obtain u where wn: "Walk v (p @ [i]) n = Inr u"
      and wl: "walkList u p (Suc i) ns = Inr v'"
      by (rule walkList_Cons_Inr)
    have frame_n: "Replacements u q = Replacements v q" if "\<not> prefix (p @ [i]) q" for q
      using Walk_frame(1)[rule_format, OF wn that] .
    have frame_l: "Replacements v' q = Replacements u q"
      if "\<And>j. Suc i \<le> j \<Longrightarrow> \<not> prefix (p @ [j]) q" for q
      using Walk_frame(2)[rule_format, OF wl that] .
    have empi: "\<forall>q. prefix (p @ [i]) q \<longrightarrow> Replacements v q = None"
      using emp[THEN spec, of i] by simp
    have agri: "\<forall>q. prefix (p @ [i]) q \<longrightarrow> r q = Replacements u q"
    proof (intro allI impI)
      fix q assume q: "prefix (p @ [i]) q"
      then have "r q = Replacements v' q" using agr[THEN spec, of i] by simp
      also have "\<dots> = Replacements u q"
        using frame_l[of q] siblings_disjoint[OF q] by simp
      finally show "r q = Replacements u q" .
    qed
    have empS: "\<forall>j\<ge>Suc i. \<forall>q. prefix (p @ [j]) q \<longrightarrow> Replacements u q = None"
    proof (intro allI impI)
      fix j q assume j: "Suc i \<le> j" and q: "prefix (p @ [j]) q"
      from j have "j \<noteq> i" by simp
      from siblings_disjoint[OF q this] have "Replacements u q = Replacements v q"
        by (rule frame_n)
      also have "\<dots> = None" using emp[THEN spec, of j] j q by simp
      finally show "Replacements u q = None" .
    qed
    have agrS: "\<forall>j\<ge>Suc i. \<forall>q. prefix (p @ [j]) q \<longrightarrow> r q = Replacements v' q"
    proof (intro allI impI)
      fix j q assume "Suc i \<le> j" and "prefix (p @ [j]) q"
      then show "r q = Replacements v' q" using agr[THEN spec, of j] by simp
    qed
    from flat have flatn: "replaced_flat n" and flatns: "list_all replaced_flat ns" by simp_all
    from IH1[rule_format, OF wn empi[rule_format] agri[rule_format] flatn]
    have IHn: "\<And>w k. Walk w k (Apply r (p @ [i]) n) = Inr w" by simp
    from IH2[rule_format, OF wl empS[rule_format] agrS[rule_format] flatns]
    have IHl: "\<And>w k i'. walkList w k i' (applyList r p (Suc i) ns) = Inr w" by simp
    show "walkList w k i' (applyList r p i (n # ns)) = Inr w"
      by (simp only: applyList.simps walkList.simps IHn IHl sum.case)
  qed

lemma rewritten_tree_is_stable:
  "\<forall>v v' r. Walk v p n = Inr v' \<longrightarrow>
      (\<forall>q. prefix p q \<longrightarrow> Replacements v q = None) \<longrightarrow>
      (\<forall>q. prefix p q \<longrightarrow> r q = Replacements v' q) \<longrightarrow>
      replaced_flat n \<longrightarrow>
      (\<forall>w k. Walk w k (Apply r p n) = Inr w) \<and> spine (Apply r p n) = spine n"
  "\<forall>v v' r. walkList v p i ns = Inr v' \<longrightarrow>
      (\<forall>j\<ge>i. \<forall>q. prefix (p @ [j]) q \<longrightarrow> Replacements v q = None) \<longrightarrow>
      (\<forall>j\<ge>i. \<forall>q. prefix (p @ [j]) q \<longrightarrow> r q = Replacements v' q) \<longrightarrow>
      list_all replaced_flat ns \<longrightarrow>
      (\<forall>w k i'. walkList w k i' (applyList r p i ns) = Inr w)"
proof (induction p n and p i ns rule: node_path_induct)
  case (Ident p name)
  show ?case by (rule stable_Ident)
next
  case (BasicLit p kind val)
  show ?case by (rule stable_BasicLit)
next
  case (SelectorExpr p X sel)
  then show ?case by (rule stable_SelectorExpr)
next
  case (CallExpr p f args)
  then show ?case by (rule stable_CallExpr)
next
  case (ExprStmt p X decs)
  then show ?case by (rule stable_ExprStmt)
next
  case (ImportSpec p name kind val decs)
  show ?case by (rule stable_ImportSpec)
next
  case (Other p kind children)
  then show ?case by (rule stable_Other)
next
  case (Nil p i)
  show ?case by (rule stable_Nil)
next
  case (Cons p i n ns)
  then show ?case by (rule stable_Cons)
qed

subsection \<open>What the outcome of a visit depends on\<close>

lemma chainLoop_root_indep:
  assumes "attach (CallExpr (SelectorExpr (Ident root) name) args) links = CallExpr f a"
    and "attach (CallExpr (SelectorExpr (Ident root') name) args) links = CallExpr f' a'"
  shows "chainLoop f a m acc = chainLoop f' a' m acc"
  using assms
proof (induction links arbitrary: f a f' a' acc rule: rev_induct)
  case Nil
  then have "f = SelectorExpr (Ident root) name" "a = args"
    "f' = SelectorExpr (Ident root') name" "a' = args"
    by (simp_all add: attach_Nil)
  then show ?case by simp
next
  case (snoc x xs)
  obtain n2 a2 where x: "x = (n2, a2)" by (cases x)
  obtain g b where g: "attach (CallExpr (SelectorExpr (Ident root) name) args) xs = CallExpr g b"
    using attach_is_call by blast
  obtain g' b' where g': "attach (CallExpr (SelectorExpr (Ident root') name) args) xs = CallExpr g' b'"
    using attach_is_call by blast
  from snoc.prems(1) have fa: "f = SelectorExpr (CallExpr g b) n2" "a = a2"
    unfolding x attach_snoc g by simp_all
  from snoc.prems(2) have fa': "f' = SelectorExpr (CallExpr g' b') n2" "a' = a2"
    unfolding x attach_snoc g' by simp_all
  show ?case
    using snoc.IH[OF g g'] by (simp add: fa fa')
qed

lemma Visit_root_indep:
  "Visit v key (ExprStmt (CallExpr (SelectorExpr
       (attach (CallExpr (SelectorExpr (Ident root) name) args) links) termFunc) termArgs) decs) =
   Visit v key (ExprStmt (CallExpr (SelectorExpr
       (attach (CallExpr (SelectorExpr (Ident root') name) args) links) termFunc) termArgs) decs)"
proof -
  obtain f a where 1: "attach (CallExpr (SelectorExpr (Ident root) name) args) links = CallExpr f a"
    using attach_is_call by blast
  obtain f' a' where 2: "attach (CallExpr (SelectorExpr (Ident root') name) args) links = CallExpr f' a'"
    using attach_is_call by blast
  show ?thesis
    unfolding 1 2 by (rule Visit_chain_cong) (rule chainLoop_root_indep[OF 1 2])
qed

lemma Visit_state_indep:
  "\<exists>outcome. \<forall>v.
     Visit v key n =
       (case outcome of
          Inl e \<Rightarrow> Inl e
        | Inr None \<Rightarrow> Inr (v, True)
        | Inr (Some new) \<Rightarrow> Inr (record_replacement v key new, False))"
proof (cases n rule: Visit_shapes)
  case (chain hf ha t targs d)
  from Visit_chain_outcomes[of _ key hf ha t targs d]
  consider (panic) "targs = [] \<and> (t = ''Msg'' \<or> t = ''Msgf'')"
    | (ok) "\<not> (targs = [] \<and> (t = ''Msg'' \<or> t = ''Msgf''))"
    by blast
  then show ?thesis
  proof cases
    case panic
    have "Visit v key n = Inl IndexOutOfRange" for v
      using Visit_chain_outcomes[of v key hf ha t targs d] panic unfolding chain by blast
    then have "\<forall>v. Visit v key n =
       (case Inl IndexOutOfRange of
          Inl e \<Rightarrow> Inl e
        | Inr None \<Rightarrow> Inr (v, True)
        | Inr (Some new) \<Rightarrow> Inr (record_replacement v key new, False))"
      by simp
    then show ?thesis by (rule exI)
  next
    case ok
    let ?v0 = "\<lparr>Replacements = Map.empty\<rparr>"
    from Visit_chain_outcomes[of ?v0 key hf ha t targs d] ok
    consider (descend) "Visit ?v0 key n = Inr (?v0, True)"
      | (replaced) c where "Visit ?v0 key n = Inr (record_replacement ?v0 key (ExprStmt c d), False)"
      unfolding chain by blast
    then show ?thesis
    proof cases
      case descend
      have "Visit v key n = Inr (v, True)" for v
        unfolding chain by (rule Visit_descend_indep[OF descend[unfolded chain]])
      then have "\<forall>v. Visit v key n =
         (case Inr None of
            Inl e \<Rightarrow> Inl e
          | Inr None \<Rightarrow> Inr (v, True)
          | Inr (Some new) \<Rightarrow> Inr (record_replacement v key new, False))"
        by simp
      then show ?thesis by (rule exI)
    next
      case replaced
      have "Visit v key n = Inr (record_replacement v key (ExprStmt c d), False)" for v
      proof -
        let ?m = \<open>if t = ''Send'' then BasicLit token_STRING ''"zerolog event"'' else hd targs\<close>
        from replaced have tf: "t = ''Msg'' \<or> t = ''Msgf'' \<or> t = ''Send''"
          unfolding chain Visit_chain_stmt by (auto split: if_splits)
        from ok have ne: "\<not> (t \<noteq> ''Send'' \<and> targs = [])"
          using tf by auto
        obtain l mo as where cl: "chainLoop hf ha ?m [] = (l, mo, as)"
          by (rule prod_cases3)
        from replaced tf ne cl obtain m where mo: "mo = Some m"
          unfolding chain Visit_chain_stmt by (cases mo) auto
        obtain c' where c': "buildSlogLogAttrsCall l m as = Inr c'"
          using buildSlogLogAttrsCall_shape by blast
        from replaced tf ne cl mo c'
        have "record_replacement ?v0 key (ExprStmt c d) = record_replacement ?v0 key (ExprStmt c' d)"
          unfolding chain Visit_chain_stmt by auto
        then have "[key \<mapsto> ExprStmt c d] = [key \<mapsto> ExprStmt c' d]"
          by (simp add: record_replacement_def)
        then have "c = c'"
          by (metis map_upd_eqD1 node.inject(5))
        with tf ne cl mo c' show ?thesis
          unfolding chain Visit_chain_stmt by auto
      qed
      then have "\<forall>v. Visit v key n =
         (case Inr (Some (ExprStmt c d)) of
            Inl e \<Rightarrow> Inl e
          | Inr None \<Rightarrow> Inr (v, True)
          | Inr (Some new) \<Rightarrow> Inr (record_replacement v key new, False))"
        by simp
      then show ?thesis by (rule exI)
    qed
  qed
next
  case (import nm k val d)
  show ?thesis
  proof (cases \<open>val = ''"github.com/rs/zerolog/log"''\<close>)
    case True
    then have "\<forall>v. Visit v key n =
       (case Inr (Some (ImportSpec None token_STRING ''\"log/slog\"'' d)) of
          Inl e \<Rightarrow> Inl e
        | Inr None \<Rightarrow> Inr (v, True)
        | Inr (Some new) \<Rightarrow> Inr (record_replacement v key new, False))"
      unfolding import by simp
    then show ?thesis by (rule exI)
  next
    case False
    then have "\<forall>v. Visit v key n =
       (case Inr None of
          Inl e \<Rightarrow> Inl e
        | Inr None \<Rightarrow> Inr (v, True)
        | Inr (Some new) \<Rightarrow> Inr (record_replacement v key new, False))"
      unfolding import by simp
    then show ?thesis by (rule exI)
  qed
next
  case other
  then have "\<forall>v. Visit v key n =
     (case Inr None of
        Inl e \<Rightarrow> Inl e
      | Inr None \<Rightarrow> Inr (v, True)
      | Inr (Some new) \<Rightarrow> Inr (record_replacement v key new, False))"
    by simp
  then show ?thesis by (rule exI)
qed

lemma Visit_replaced_message:
  assumes "Visit v key (ExprStmt (CallExpr (SelectorExpr (CallExpr headFun headArgs) termFunc)
              termArgs) decs) = Inr (v', False)"
  shows \<open>\<exists>levelExpr message slogAttrs.
      v' = record_replacement v key
        (ExprStmt (CallExpr (SelectorExpr (Ident ''slog'') ''LogAttrs'')
           ([Ident ''ctx'', levelExpr, message] @ slogAttrs)) decs) \<and>
      (if termFunc = ''Send'' then message = BasicLit token_STRING ''"zerolog event"''
       else \<exists>trailing. termArgs = message # trailing \<and>
              Visit v key (ExprStmt (CallExpr (SelectorExpr (CallExpr headFun headArgs) termFunc)
                [message]) decs) = Inr (v', False))\<close>
proof -
  let ?m = \<open>if termFunc = ''Send'' then BasicLit token_STRING ''"zerolog event"'' else hd termArgs\<close>
  from assms have tf: "termFunc = ''Msg'' \<or> termFunc = ''Msgf'' \<or> termFunc = ''Send''"
    unfolding Visit_chain_stmt by (auto split: if_splits)
  from assms have ne: "termFunc = ''Send'' \<or> termArgs \<noteq> []"
    unfolding Visit_chain_stmt by (auto split: if_splits)
  obtain l mo as where cl: "chainLoop headFun headArgs ?m [] = (l, mo, as)"
    by (rule prod_cases3)
  from assms tf ne cl obtain m where mo: "mo = Some m"
    unfolding Visit_chain_stmt by (cases mo) auto
  have m: "m = ?m"
    using chainLoop_result[OF cl] mo by simp
  obtain levelExpr where c: "buildSlogLogAttrsCall l m' as =
      Inr (CallExpr (SelectorExpr (Ident ''slog'') ''LogAttrs'')
             ([Ident ''ctx'', levelExpr, m'] @ as))" for m'
    using buildSlogLogAttrsCall_shape by blast
  have v': "v' = record_replacement v key
        (ExprStmt (CallExpr (SelectorExpr (Ident ''slog'') ''LogAttrs'')
           ([Ident ''ctx'', levelExpr, ?m] @ as)) decs)"
    using assms tf ne cl mo m c unfolding Visit_chain_stmt by auto
  show ?thesis
  proof (cases "termFunc = ''Send''")
    case True
    with v' show ?thesis by auto
  next
    case False
    with ne obtain first trailing where ta: "termArgs = first # trailing"
      by (cases termArgs) auto
    have "Visit v key (ExprStmt (CallExpr (SelectorExpr (CallExpr headFun headArgs) termFunc)
                [first]) decs) = Inr (v', False)"
      using assms Visit_trailing_args[of v key headFun headArgs termFunc first trailing decs]
      unfolding ta by simp
    with v' False ta show ?thesis by auto
  qed
qed

lemma Visit_level_chain_messages:
  assumes 1: "isLoggerLevel level" and 2: "\<forall>(n, a) \<in> set links. \<not> isLoggerLevel n"
  shows \<open>\<exists>levelExpr. \<forall>v first trailing termArgs.
          Visit v key (ExprStmt (CallExpr (SelectorExpr
            (attach (CallExpr (SelectorExpr (Ident root) level) levelArgs) links) ''Send'') termArgs) decs) =
          Inr (record_replacement v key
            (ExprStmt (CallExpr (SelectorExpr (Ident ''slog'') ''LogAttrs'')
               ([Ident ''ctx'', levelExpr, BasicLit token_STRING ''"zerolog event"'']
                @ List.map_filter (\<lambda>(n, a). convertFieldToSlogAttr n a) links)) decs), False) \<and>
          Visit v key (ExprStmt (CallExpr (SelectorExpr
            (attach (CallExpr (SelectorExpr (Ident root) level) levelArgs) links) ''Msg'') (first # trailing)) decs) =
          Inr (record_replacement v key
            (ExprStmt (CallExpr (SelectorExpr (Ident ''slog'') ''LogAttrs'')
               ([Ident ''ctx'', levelExpr, first]
                @ List.map_filter (\<lambda>(n, a). convertFieldToSlogAttr n a) links)) decs), False) \<and>
          Visit v key (ExprStmt (CallExpr (SelectorExpr
            (attach (CallExpr (SelectorExpr (Ident root) level) levelArgs) links) ''Msgf'') (first # trailing)) decs) =
          Inr (record_replacement v key
            (ExprStmt (CallExpr (SelectorExpr (Ident ''slog'') ''LogAttrs'')
               ([Ident ''ctx'', levelExpr, first]
                @ List.map_filter (\<lambda>(n, a). convertFieldToSlogAttr n a) links)) decs), False)\<close>
proof -
  obtain levelExpr where c: "buildSlogLogAttrsCall level m as =
      Inr (CallExpr (SelectorExpr (Ident ''slog'') ''LogAttrs'')
             ([Ident ''ctx'', levelExpr, m] @ as))" for m as
    using buildSlogLogAttrsCall_shape by blast
  let ?fields = "List.map_filter (\<lambda>(n, a). convertFieldToSlogAttr n a) links"
  have send: \<open>Visit v key (ExprStmt (CallExpr (SelectorExpr
            (attach (CallExpr (SelectorExpr (Ident root) level) levelArgs) links) ''Send'') termArgs) decs) =
          Inr (record_replacement v key
            (ExprStmt (CallExpr (SelectorExpr (Ident ''slog'') ''LogAttrs'')
               ([Ident ''ctx'', levelExpr, BasicLit token_STRING ''"zerolog event"''] @ ?fields)) decs), False)\<close>
    for v termArgs
  proof -
    have t: "(''Send'' = ''Msg'' \<or> ''Send'' = ''Msgf'') \<and> termArgs \<noteq> [] \<or> ''Send'' = ''Send''"
      by simp
    show ?thesis
      by (simp only: Visit_level_chain[OF 1 2 t] c sum.case if_True refl)
  qed
  have msg: \<open>Visit v key (ExprStmt (CallExpr (SelectorExpr
            (attach (CallExpr (SelectorExpr (Ident root) level) levelArgs) links) ''Msg'') (first # trailing)) decs) =
          Inr (record_replacement v key
            (ExprStmt (CallExpr (SelectorExpr (Ident ''slog'') ''LogAttrs'')
               ([Ident ''ctx'', levelExpr, first] @ ?fields)) decs), False)\<close>
    for v first trailing
  proof -
    have t: "(''Msg'' = ''Msg'' \<or> ''Msg'' = ''Msgf'') \<and> first # trailing \<noteq> [] \<or> ''Msg'' = ''Send''"
      by simp
    have ns: "''Msg'' \<noteq> ''Send''" by simp
    show ?thesis
      by (simp only: Visit_level_chain[OF 1 2 t] c sum.case ns if_False list.sel)
  qed
  have msgf: \<open>Visit v key (ExprStmt (CallExpr (SelectorExpr
            (attach (CallExpr (SelectorExpr (Ident root) level) levelArgs) links) ''Msgf'') (first # trailing)) decs) =
          Inr (record_replacement v key
            (ExprStmt (CallExpr (SelectorExpr (Ident ''slog'') ''LogAttrs'')
               ([Ident ''ctx'', levelExpr, first] @ ?fields)) decs), False)\<close>
    for v first trailing
  proof -
    have t: "(''Msgf'' = ''Msg'' \<or> ''Msgf'' = ''Msgf'') \<and> first # trailing \<noteq> [] \<or> ''Msgf'' = ''Send''"
      by simp
    have ns: "''Msgf'' \<noteq> ''Send''" by simp
    show ?thesis
      by (simp only: Visit_level_chain[OF 1 2 t] c sum.case ns if_False list.sel)
  qed
  from send msg msgf show ?thesis by blast
qed

section \<open>The claims\<close>

subsection \<open>C1: an unrecognized field link\<close>




subsection \<open>C2: a terminator without arguments\<close>

text \<open>
  C2: the claim asks that a statement whose terminator is \<open>Msg\<close> or \<open>Msgf\<close> with no
  argument is handled without a panic. \<open>extractZerologChain\<close> reads \<open>termArgs[0]\<close>
  before any check, so for \<open>x.Info().Msg()\<close> the index is out of range and \<open>Visit\<close>
  panics.
\<close>

theorem C2_Msg_without_arguments_panics:
  \<open>Visit \<lparr>Replacements = Map.empty\<rparr> [0]
     (ExprStmt
        (CallExpr (SelectorExpr (CallExpr (SelectorExpr (Ident ''x'') ''Info'') []) ''Msg'') [])
        \<lparr>Before = NewLine, Start = [], End = [], After = NewLine\<rparr>) = Inl IndexOutOfRange\<close>
  by (simp add: eval_simps)

subsection \<open>C3: the field Err\<close>

text \<open>
  C3, as stated, fails. The claim says that \<open>Err\<close> with an arity other than 1 is not
  recognized. The \<open>Err\<close> case of \<open>convertFieldToSlogAttr\<close> has no test of the number of
  arguments: with no argument it yields \<open>slog.Any("err")\<close> and with two arguments
  \<open>slog.Any("err", e1, e2)\<close>.
\<close>

theorem C3_counterexample:
  \<open>convertFieldToSlogAttr ''Err'' [] =
     Some (CallExpr (SelectorExpr (Ident ''slog'') ''Any'') [BasicLit token_STRING ''"err"''])
   \<and> convertFieldToSlogAttr ''Err'' [Ident ''e1'', Ident ''e2''] =
     Some (CallExpr (SelectorExpr (Ident ''slog'') ''Any'')
       [BasicLit token_STRING ''"err"'', Ident ''e1'', Ident ''e2''])\<close>
  by (simp add: convertFieldToSlogAttr_def slogAttrCall_def)

text \<open>
  C3, amended: for every argument list, \<open>Err\<close> is recognized and yields the call
  \<open>slog.Any\<close> whose arguments are the literal key \<open>"err"\<close> followed by all the given
  arguments; with exactly one argument \<open>e\<close> this is \<open>slog.Any("err", e)\<close>.
\<close>

theorem C3_Err_any_arity:
  \<open>convertFieldToSlogAttr ''Err'' args =
     Some (CallExpr (SelectorExpr (Ident ''slog'') ''Any'') (BasicLit token_STRING ''"err"'' # args))\<close>
  by (simp add: convertFieldToSlogAttr_def slogAttrCall_def)

subsection \<open>C4: the order of the fields\<close>

text \<open>
  C4: for a chain \<open>root.Level(...).F1(...)...Fn(...)\<close> closed by \<open>Msg\<close>, \<open>Msgf\<close> (with
  their message argument) or \<open>Send\<close>, whose field links are all recognized with converted
  nodes \<open>converted = [c1, ..., cn]\<close>, the arguments of the replacement call are the
  context, the level, the message and then \<open>c1, ..., cn\<close> in the order of the source.
\<close>

theorem C4_field_order:
  assumes "isLoggerLevel level"
    and "list_all2 (\<lambda>(name, args) attr.
            \<not> isLoggerLevel name \<and> convertFieldToSlogAttr name args = Some attr) links converted"
    and "(termFunc = ''Msg'' \<or> termFunc = ''Msgf'') \<and> termArgs \<noteq> [] \<or> termFunc = ''Send''"
  shows "\<exists>levelExpr message.
    Visit v key (ExprStmt (CallExpr (SelectorExpr
        (attach (CallExpr (SelectorExpr (Ident root) level) levelArgs) links) termFunc) termArgs) decs) =
    Inr (record_replacement v key
      (ExprStmt (CallExpr (SelectorExpr (Ident ''slog'') ''LogAttrs'')
         ([Ident ''ctx'', levelExpr, message] @ converted)) decs), False)"
proof -
  have nl: "\<forall>(n, a) \<in> set links. \<not> isLoggerLevel n"
    using assms(2) by (induction links converted rule: list_all2_induct) auto
  have "list_all2 (\<lambda>x y. (\<lambda>(n, a). convertFieldToSlogAttr n a) x = Some y) links converted"
    using assms(2) by (rule list_all2_mono) auto
  then have mf: "List.map_filter (\<lambda>(n, a). convertFieldToSlogAttr n a) links = converted"
    by (rule map_filter_all_Some)
  obtain levelExpr where c: "buildSlogLogAttrsCall level m converted =
      Inr (CallExpr (SelectorExpr (Ident ''slog'') ''LogAttrs'')
             ([Ident ''ctx'', levelExpr, m] @ converted))" for m
    using buildSlogLogAttrsCall_shape by blast
  show ?thesis
    unfolding Visit_level_chain[OF assms(1) nl assms(3)] mf c
    by (intro exI) simp
qed

theorem C4_field_order_witness:
  \<open>isLoggerLevel ''Debug'' \<and>
   list_all2 (\<lambda>(name, args) attr.
       \<not> isLoggerLevel name \<and> convertFieldToSlogAttr name args = Some attr)
     [(''Int'', [BasicLit token_STRING ''"num"'', BasicLit token_INT ''42'']),
      (''Bool'', [BasicLit token_STRING ''"active"'', Ident ''true''])]
     [CallExpr (SelectorExpr (Ident ''slog'') ''Int'')
        [BasicLit token_STRING ''"num"'', BasicLit token_INT ''42''],
      CallExpr (SelectorExpr (Ident ''slog'') ''Bool'')
        [BasicLit token_STRING ''"active"'', Ident ''true'']] \<and>
   (\<exists>levelExpr message.
      Visit \<lparr>Replacements = Map.empty\<rparr> [0]
        (ExprStmt (CallExpr (SelectorExpr
           (attach (CallExpr (SelectorExpr (Ident ''log'') ''Debug'') [])
              [(''Int'', [BasicLit token_STRING ''"num"'', BasicLit token_INT ''42'']),
               (''Bool'', [BasicLit token_STRING ''"active"'', Ident ''true''])])
           ''Msg'') [BasicLit token_STRING ''"debugging"''])
           \<lparr>Before = NewLine, Start = [], End = [], After = NewLine\<rparr>) =
      Inr (record_replacement \<lparr>Replacements = Map.empty\<rparr> [0]
        (ExprStmt (CallExpr (SelectorExpr (Ident ''slog'') ''LogAttrs'')
           ([Ident ''ctx'', levelExpr, message] @
            [CallExpr (SelectorExpr (Ident ''slog'') ''Int'')
               [BasicLit token_STRING ''"num"'', BasicLit token_INT ''42''],
             CallExpr (SelectorExpr (Ident ''slog'') ''Bool'')
               [BasicLit token_STRING ''"active"'', Ident ''true'']]))
           \<lparr>Before = NewLine, Start = [], End = [], After = NewLine\<rparr>), False))\<close>
proof -
  have 1: \<open>isLoggerLevel ''Debug''\<close>
    by (simp add: isLoggerLevel_def logLevels_def)
  have 2: \<open>list_all2 (\<lambda>(name, args) attr.
       \<not> isLoggerLevel name \<and> convertFieldToSlogAttr name args = Some attr)
     [(''Int'', [BasicLit token_STRING ''"num"'', BasicLit token_INT ''42'']),
      (''Bool'', [BasicLit token_STRING ''"active"'', Ident ''true''])]
     [CallExpr (SelectorExpr (Ident ''slog'') ''Int'')
        [BasicLit token_STRING ''"num"'', BasicLit token_INT ''42''],
      CallExpr (SelectorExpr (Ident ''slog'') ''Bool'')
        [BasicLit token_STRING ''"active"'', Ident ''true'']]\<close>
    by (simp add: isLoggerLevel_def logLevels_def convertFieldToSlogAttr_def slogAttrCall_def)
  have 3: \<open>(''Msg'' = ''Msg'' \<or> ''Msg'' = ''Msgf'') \<and> [BasicLit token_STRING ''"debugging"''] \<noteq> []
             \<or> ''Msg'' = ''Send''\<close>
    by simp
  show ?thesis
    using 1 2 C4_field_order[OF 1 2 3] by blast
qed

subsection \<open>C5: the severity mapping\<close>

text \<open>
  C5: \<open>buildSlogLogAttrsCall\<close> never fails, and the level argument it builds is
  \<open>slog.LevelTrace\<close>, \<open>slog.LevelDebug\<close>, \<open>slog.LevelInfo\<close>, \<open>slog.LevelWarn\<close> and
  \<open>slog.LevelError\<close> for the level of the same name, \<open>slog.LevelError\<close> for \<open>Fatal\<close>
  and \<open>Panic\<close>, and \<open>slog.LevelInfo\<close> for every other level name.
\<close>

theorem C5_severity_mapping:
  "buildSlogLogAttrsCall levelStr message slogAttrs =
     Inr (CallExpr (SelectorExpr (Ident ''slog'') ''LogAttrs'')
       ([Ident ''ctx'',
         SelectorExpr (Ident ''slog'')
           (if levelStr = ''Trace'' then ''LevelTrace''
            else if levelStr = ''Debug'' then ''LevelDebug''
            else if levelStr = ''Info'' then ''LevelInfo''
            else if levelStr = ''Warn'' then ''LevelWarn''
            else if levelStr = ''Error'' then ''LevelError''
            else if levelStr = ''Fatal'' then ''LevelError''
            else if levelStr = ''Panic'' then ''LevelError''
            else ''LevelInfo''),
         message] @ slogAttrs))"
  by (simp add: buildSlogLogAttrsCall_def logLevels_def index_def Let_def)

subsection \<open>C6: the message\<close>

text \<open>
  C6: for every chain \<open>root.Level(...)\<close> followed by field links, the statement closed
  by \<open>Send\<close> is replaced and the third argument of the replacement call, the message, is
  the literal \<open>"zerolog event"\<close>; the statement closed by \<open>Msg\<close> or \<open>Msgf\<close> is replaced
  and the message is the first argument of the terminator, whatever arguments follow it.
  And whenever \<open>Visit\<close> replaces a statement at all, the message of the replacement is
  that literal (terminator \<open>Send\<close>) or the first argument of the terminator; in the
  second case the arguments after the first are dropped: the statement with the terminator
  applied to the first argument alone gets the very same replacement.
\<close>

theorem C6_message_resolution:
  \<open>(isLoggerLevel level \<and> (\<forall>(n, a) \<in> set links. \<not> isLoggerLevel n) \<longrightarrow>
      (\<exists>levelExpr. \<forall>v first trailing termArgs.
          Visit v key (ExprStmt (CallExpr (SelectorExpr
            (attach (CallExpr (SelectorExpr (Ident root) level) levelArgs) links) ''Send'') termArgs) decs) =
          Inr (record_replacement v key
            (ExprStmt (CallExpr (SelectorExpr (Ident ''slog'') ''LogAttrs'')
               ([Ident ''ctx'', levelExpr, BasicLit token_STRING ''"zerolog event"'']
                @ List.map_filter (\<lambda>(n, a). convertFieldToSlogAttr n a) links)) decs), False) \<and>
          Visit v key (ExprStmt (CallExpr (SelectorExpr
            (attach (CallExpr (SelectorExpr (Ident root) level) levelArgs) links) ''Msg'') (first # trailing)) decs) =
          Inr (record_replacement v key
            (ExprStmt (CallExpr (SelectorExpr (Ident ''slog'') ''LogAttrs'')
               ([Ident ''ctx'', levelExpr, first]
                @ List.map_filter (\<lambda>(n, a). convertFieldToSlogAttr n a) links)) decs), False) \<and>
          Visit v key (ExprStmt (CallExpr (SelectorExpr
            (attach (CallExpr (SelectorExpr (Ident root) level) levelArgs) links) ''Msgf'') (first # trailing)) decs) =
          Inr (record_replacement v key
            (ExprStmt (CallExpr (SelectorExpr (Ident ''slog'') ''LogAttrs'')
               ([Ident ''ctx'', levelExpr, first]
                @ List.map_filter (\<lambda>(n, a). convertFieldToSlogAttr n a) links)) decs), False)))
   \<and>
   (Visit v key (ExprStmt (CallExpr (SelectorExpr (CallExpr headFun headArgs) termFunc)
       termArgs) decs) = Inr (v', False) \<longrightarrow>
    (\<exists>levelExpr message slogAttrs.
      v' = record_replacement v key
        (ExprStmt (CallExpr (SelectorExpr (Ident ''slog'') ''LogAttrs'')
           ([Ident ''ctx'', levelExpr, message] @ slogAttrs)) decs) \<and>
      (if termFunc = ''Send'' then message = BasicLit token_STRING ''"zerolog event"''
       else \<exists>trailing. termArgs = message # trailing \<and>
              Visit v key (ExprStmt (CallExpr (SelectorExpr (CallExpr headFun headArgs) termFunc)
                [message]) decs) = Inr (v', False))))\<close>
  (is "(?H \<longrightarrow> ?A) \<and> (?V \<longrightarrow> ?B)")
proof (rule conjI)
  show "?H \<longrightarrow> ?A"
  proof (rule impI)
    assume ?H
    then have 1: "isLoggerLevel level" and 2: "\<forall>(n, a) \<in> set links. \<not> isLoggerLevel n"
      by simp_all
    show ?A by (rule Visit_level_chain_messages[OF 1 2])
  qed
  show "?V \<longrightarrow> ?B"
  proof (rule impI)
    assume ?V
    then show ?B by (rule Visit_replaced_message)
  qed
qed

theorem C6_message_resolution_witness:
  \<open>(\<exists>levelExpr.
      Visit \<lparr>Replacements = Map.empty\<rparr> [0] (ExprStmt (CallExpr (SelectorExpr
          (attach (CallExpr (SelectorExpr (Ident ''log'') ''Warn'') []) [(''Str'', [BasicLit token_STRING ''"key"'', BasicLit token_STRING ''"value"''])]) ''Send'') []) plain_decs) =
      Inr (record_replacement \<lparr>Replacements = Map.empty\<rparr> [0]
          (ExprStmt (CallExpr (SelectorExpr (Ident ''slog'') ''LogAttrs'')
             ([Ident ''ctx'', levelExpr, BasicLit token_STRING ''"zerolog event"'']
              @ List.map_filter (\<lambda>(n, a). convertFieldToSlogAttr n a) [(''Str'', [BasicLit token_STRING ''"key"'', BasicLit token_STRING ''"value"''])])) plain_decs), False) \<and>
      Visit \<lparr>Replacements = Map.empty\<rparr> [0] (ExprStmt (CallExpr (SelectorExpr
          (attach (CallExpr (SelectorExpr (Ident ''log'') ''Warn'') []) [(''Str'', [BasicLit token_STRING ''"key"'', BasicLit token_STRING ''"value"''])]) ''Msgf'') [BasicLit token_STRING ''"user %s logged in"'', BasicLit token_STRING ''"testuser"'']) plain_decs) =
      Inr (record_replacement \<lparr>Replacements = Map.empty\<rparr> [0]
          (ExprStmt (CallExpr (SelectorExpr (Ident ''slog'') ''LogAttrs'')
             ([Ident ''ctx'', levelExpr, BasicLit token_STRING ''"user %s logged in"'']
              @ List.map_filter (\<lambda>(n, a). convertFieldToSlogAttr n a) [(''Str'', [BasicLit token_STRING ''"key"'', BasicLit token_STRING ''"value"''])])) plain_decs), False))
   \<and>
   Visit \<lparr>Replacements = Map.empty\<rparr> [0]
     (ExprStmt (CallExpr (SelectorExpr (CallExpr (SelectorExpr (Ident ''log'') ''Warn'') []) ''Msgf'')
        [BasicLit token_STRING ''"user %s logged in"'', BasicLit token_STRING ''"testuser"''])
        \<lparr>Before = NewLine, Start = [], End = [], After = NewLine\<rparr>) =
   Inr (\<lparr>Replacements = [[0] \<mapsto>
          ExprStmt (CallExpr (SelectorExpr (Ident ''slog'') ''LogAttrs'')
             [Ident ''ctx'', SelectorExpr (Ident ''slog'') ''LevelWarn'',
              BasicLit token_STRING ''"user %s logged in"''])
            \<lparr>Before = NewLine, Start = [], End = [], After = NewLine\<rparr>]\<rparr>, False) \<and>
   (\<exists>levelExpr message slogAttrs.
      \<lparr>Replacements = [[0] \<mapsto>
          ExprStmt (CallExpr (SelectorExpr (Ident ''slog'') ''LogAttrs'')
             [Ident ''ctx'', SelectorExpr (Ident ''slog'') ''LevelWarn'',
              BasicLit token_STRING ''"user %s logged in"''])
            \<lparr>Before = NewLine, Start = [], End = [], After = NewLine\<rparr>]\<rparr> =
      record_replacement \<lparr>Replacements = Map.empty\<rparr> [0]
        (ExprStmt (CallExpr (SelectorExpr (Ident ''slog'') ''LogAttrs'')
           ([Ident ''ctx'', levelExpr, message] @ slogAttrs))
           \<lparr>Before = NewLine, Start = [], End = [], After = NewLine\<rparr>) \<and>
      (\<exists>trailing.
         [BasicLit token_STRING ''"user %s logged in"'', BasicLit token_STRING ''"testuser"''] =
           message # trailing))\<close>
proof -
  have lv: \<open>isLoggerLevel ''Warn'' \<and>
      (\<forall>(n, a) \<in> set [(''Str'', [BasicLit token_STRING ''"key"'', BasicLit token_STRING ''"value"''])]. \<not> isLoggerLevel n)\<close>
    by (simp add: isLoggerLevel_def logLevels_def)
  have h: \<open>Visit \<lparr>Replacements = Map.empty\<rparr> [0]
     (ExprStmt (CallExpr (SelectorExpr (CallExpr (SelectorExpr (Ident ''log'') ''Warn'') []) ''Msgf'')
        [BasicLit token_STRING ''"user %s logged in"'', BasicLit token_STRING ''"testuser"''])
        \<lparr>Before = NewLine, Start = [], End = [], After = NewLine\<rparr>) =
   Inr (\<lparr>Replacements = [[0] \<mapsto>
          ExprStmt (CallExpr (SelectorExpr (Ident ''slog'') ''LogAttrs'')
             [Ident ''ctx'', SelectorExpr (Ident ''slog'') ''LevelWarn'',
              BasicLit token_STRING ''"user %s logged in"''])
            \<lparr>Before = NewLine, Start = [], End = [], After = NewLine\<rparr>]\<rparr>, False)\<close>
    by (simp add: eval_simps)
  have ns: \<open>''Msgf'' \<noteq> ''Send''\<close> by simp
  note T1 = C6_message_resolution[THEN conjunct1, rule_format, OF lv]
  note T2 = C6_message_resolution[THEN conjunct2, rule_format, OF h]
  from T1[of "[0]" "''log''" "[]" plain_decs] have a: \<open>(\<exists>levelExpr.
      Visit \<lparr>Replacements = Map.empty\<rparr> [0] (ExprStmt (CallExpr (SelectorExpr
          (attach (CallExpr (SelectorExpr (Ident ''log'') ''Warn'') []) [(''Str'', [BasicLit token_STRING ''"key"'', BasicLit token_STRING ''"value"''])]) ''Send'') []) plain_decs) =
      Inr (record_replacement \<lparr>Replacements = Map.empty\<rparr> [0]
          (ExprStmt (CallExpr (SelectorExpr (Ident ''slog'') ''LogAttrs'')
             ([Ident ''ctx'', levelExpr, BasicLit token_STRING ''"zerolog event"'']
              @ List.map_filter (\<lambda>(n, a). convertFieldToSlogAttr n a) [(''Str'', [BasicLit token_STRING ''"key"'', BasicLit token_STRING ''"value"''])])) plain_decs), False) \<and>
      Visit \<lparr>Replacements = Map.empty\<rparr> [0] (ExprStmt (CallExpr (SelectorExpr
          (attach (CallExpr (SelectorExpr (Ident ''log'') ''Warn'') []) [(''Str'', [BasicLit token_STRING ''"key"'', BasicLit token_STRING ''"value"''])]) ''Msgf'') [BasicLit token_STRING ''"user %s logged in"'', BasicLit token_STRING ''"testuser"'']) plain_decs) =
      Inr (record_replacement \<lparr>Replacements = Map.empty\<rparr> [0]
          (ExprStmt (CallExpr (SelectorExpr (Ident ''slog'') ''LogAttrs'')
             ([Ident ''ctx'', levelExpr, BasicLit token_STRING ''"user %s logged in"'']
              @ List.map_filter (\<lambda>(n, a). convertFieldToSlogAttr n a) [(''Str'', [BasicLit token_STRING ''"key"'', BasicLit token_STRING ''"value"''])])) plain_decs), False))\<close>
    by blast
  from h T2 ns have b: \<open>Visit \<lparr>Replacements = Map.empty\<rparr> [0]
     (ExprStmt (CallExpr (SelectorExpr (CallExpr (SelectorExpr (Ident ''log'') ''Warn'') []) ''Msgf'')
        [BasicLit token_STRING ''"user %s logged in"'', BasicLit token_STRING ''"testuser"''])
        \<lparr>Before = NewLine, Start = [], End = [], After = NewLine\<rparr>) =
   Inr (\<lparr>Replacements = [[0] \<mapsto>
          ExprStmt (CallExpr (SelectorExpr (Ident ''slog'') ''LogAttrs'')
             [Ident ''ctx'', SelectorExpr (Ident ''slog'') ''LevelWarn'',
              BasicLit token_STRING ''"user %s logged in"''])
            \<lparr>Before = NewLine, Start = [], End = [], After = NewLine\<rparr>]\<rparr>, False) \<and>
   (\<exists>levelExpr message slogAttrs.
      \<lparr>Replacements = [[0] \<mapsto>
          ExprStmt (CallExpr (SelectorExpr (Ident ''slog'') ''LogAttrs'')
             [Ident ''ctx'', SelectorExpr (Ident ''slog'') ''LevelWarn'',
              BasicLit token_STRING ''"user %s logged in"''])
            \<lparr>Before = NewLine, Start = [], End = [], After = NewLine\<rparr>]\<rparr> =
      record_replacement \<lparr>Replacements = Map.empty\<rparr> [0]
        (ExprStmt (CallExpr (SelectorExpr (Ident ''slog'') ''LogAttrs'')
           ([Ident ''ctx'', levelExpr, message] @ slogAttrs))
           \<lparr>Before = NewLine, Start = [], End = [], After = NewLine\<rparr>) \<and>
      (\<exists>trailing.
         [BasicLit token_STRING ''"user %s logged in"'', BasicLit token_STRING ''"testuser"''] =
           message # trailing))\<close>
    by (simp only: if_False) blast
  from a b show ?thesis by (rule conjI)
qed

subsection \<open>C7: decorations\<close>

text \<open>
  C7: when \<open>Visit\<close> records a replacement for a node, the node is an expression
  statement and the replacement is an expression statement with the same decorations, or
  the node is an import and the replacement is the import of \<open>"log/slog"\<close> with the same
  decorations; no other entry of the replacement map changes. When \<open>Visit\<close> records
  nothing, the visitor is unchanged.
\<close>

theorem C7_decorations_preserved:
  assumes "Visit v key node = Inr (v', descend)"
  shows \<open>(descend \<longrightarrow> v' = v) \<and>
    (\<not> descend \<longrightarrow>
       (\<forall>other. other \<noteq> key \<longrightarrow> Replacements v' other = Replacements v other) \<and>
       ((\<exists>X decs newSlogCall. node = ExprStmt X decs \<and>
            Replacements v' key = Some (ExprStmt newSlogCall decs)) \<or>
        (\<exists>name kind val decs. node = ImportSpec name kind val decs \<and>
            Replacements v' key = Some (ImportSpec None token_STRING ''"log/slog"'' decs))))\<close>
proof (cases descend)
  case True
  with assms have "Visit v key node = Inr (v', True)" by simp
  from Visit_descend[OF this] True show ?thesis by simp
next
  case False
  with assms have "Visit v key node = Inr (v', False)" by simp
  from Visit_replaced[OF this] False show ?thesis
    by (auto simp: record_replacement_def)
qed

theorem C7_decorations_preserved_witness:
  \<open>Visit \<lparr>Replacements = Map.empty\<rparr> [1, 0]
     (ImportSpec (Some ''zl'') token_STRING ''"github.com/rs/zerolog/log"''
        \<lparr>Before = NewLine, Start = [''// logging''], End = [''// zerolog''], After = EmptyLine\<rparr>) =
   Inr (\<lparr>Replacements = [[1, 0] \<mapsto>
          ImportSpec None token_STRING ''"log/slog"''
            \<lparr>Before = NewLine, Start = [''// logging''], End = [''// zerolog''], After = EmptyLine\<rparr>]\<rparr>,
        False) \<and>
   Replacements \<lparr>Replacements = [[1, 0] \<mapsto>
          ImportSpec None token_STRING ''"log/slog"''
            \<lparr>Before = NewLine, Start = [''// logging''], End = [''// zerolog''], After = EmptyLine\<rparr>]\<rparr> [0] =
   Replacements \<lparr>Replacements = Map.empty\<rparr> [0]\<close>
proof -
  have h: \<open>Visit \<lparr>Replacements = Map.empty\<rparr> [1, 0]
     (ImportSpec (Some ''zl'') token_STRING ''"github.com/rs/zerolog/log"''
        \<lparr>Before = NewLine, Start = [''// logging''], End = [''// zerolog''], After = EmptyLine\<rparr>) =
   Inr (\<lparr>Replacements = [[1, 0] \<mapsto>
          ImportSpec None token_STRING ''"log/slog"''
            \<lparr>Before = NewLine, Start = [''// logging''], End = [''// zerolog''], After = EmptyLine\<rparr>]\<rparr>,
        False)\<close>
    by (simp add: eval_simps)
  have ne: "[0] \<noteq> [1, 0::nat]" by simp
  show ?thesis
    using h C7_decorations_preserved[OF h] ne by blast
qed

subsection \<open>C8: running the transformation twice\<close>

text \<open>
  C8, as stated, fails. The claim says that a second run on the output of the first run
  records no replacement, for every input tree. \<open>Visit\<close> returns a nil visitor for a
  statement it replaces, so the first run does not visit what is nested inside that
  statement, and the replacement call takes over the message and field arguments as they
  are. In \<open>nested_tree\<close> the message of the outer statement is a call of a function
  literal whose body holds \<open>log.Info().Msg("inner")\<close>: the first run replaces the outer
  statement only, and the second run finds and replaces the inner one.
\<close>

theorem C8_counterexample:
  \<open>Walk \<lparr>Replacements = Map.empty\<rparr> [] nested_tree =
   Inr \<lparr>Replacements = [[0] \<mapsto>
     ExprStmt
       (CallExpr (SelectorExpr (Ident ''slog'') ''LogAttrs'')
          [Ident ''ctx'', SelectorExpr (Ident ''slog'') ''LevelInfo'', message_closure])
       plain_decs]\<rparr>
   \<and>
   Walk \<lparr>Replacements = Map.empty\<rparr> []
     (replaceAndPrintDST nested_tree
        [[0] \<mapsto>
          ExprStmt
            (CallExpr (SelectorExpr (Ident ''slog'') ''LogAttrs'')
               [Ident ''ctx'', SelectorExpr (Ident ''slog'') ''LevelInfo'', message_closure])
            plain_decs]) =
   Inr \<lparr>Replacements = [[0, 0, 3, 0, 1, 0] \<mapsto>
     ExprStmt
       (CallExpr (SelectorExpr (Ident ''slog'') ''LogAttrs'')
          [Ident ''ctx'', SelectorExpr (Ident ''slog'') ''LevelInfo'',
           BasicLit token_STRING ''"inner"''])
       plain_decs]\<rparr>
   \<and>
   Walk \<lparr>Replacements = Map.empty\<rparr> []
     (replaceAndPrintDST nested_tree
        [[0] \<mapsto>
          ExprStmt
            (CallExpr (SelectorExpr (Ident ''slog'') ''LogAttrs'')
               [Ident ''ctx'', SelectorExpr (Ident ''slog'') ''LevelInfo'', message_closure])
            plain_decs]) \<noteq>
   Inr \<lparr>Replacements = Map.empty\<rparr>\<close>
proof -
  have 1: \<open>Walk \<lparr>Replacements = Map.empty\<rparr> [] nested_tree =
   Inr \<lparr>Replacements = [[0] \<mapsto>
     ExprStmt
       (CallExpr (SelectorExpr (Ident ''slog'') ''LogAttrs'')
          [Ident ''ctx'', SelectorExpr (Ident ''slog'') ''LevelInfo'', message_closure])
       plain_decs]\<rparr>\<close>
    by (simp add: eval_simps nested_tree_def message_closure_def inner_stmt_def)
  have 2: \<open>Walk \<lparr>Replacements = Map.empty\<rparr> []
     (replaceAndPrintDST nested_tree
        [[0] \<mapsto>
          ExprStmt
            (CallExpr (SelectorExpr (Ident ''slog'') ''LogAttrs'')
               [Ident ''ctx'', SelectorExpr (Ident ''slog'') ''LevelInfo'', message_closure])
            plain_decs]) =
   Inr \<lparr>Replacements = [[0, 0, 3, 0, 1, 0] \<mapsto>
     ExprStmt
       (CallExpr (SelectorExpr (Ident ''slog'') ''LogAttrs'')
          [Ident ''ctx'', SelectorExpr (Ident ''slog'') ''LevelInfo'',
           BasicLit token_STRING ''"inner"''])
       plain_decs]\<rparr>\<close>
    by (simp add: eval_simps replaceAndPrintDST_def nested_tree_def message_closure_def
        inner_stmt_def eval_nat_numeral)
  have 3: "[k \<mapsto> (x::node)] \<noteq> Map.empty" for k :: path and x
    by simp
  from 1 2 3 show ?thesis by simp
qed

text \<open>
  C8, amended: on every input tree on which the first run does not panic and in which no
  statement that the first run replaces has an expression statement or an import nested
  inside its expression, the second run on the output of the first run returns without a
  panic and records no replacement.
\<close>

theorem C8_second_run_records_nothing:
  assumes "Walk \<lparr>Replacements = Map.empty\<rparr> [] tree = Inr v"
    and "replaced_flat tree"
  shows "Walk \<lparr>Replacements = Map.empty\<rparr> [] (replaceAndPrintDST tree (Replacements v)) =
         Inr \<lparr>Replacements = Map.empty\<rparr>"
proof -
  have emp: "\<forall>q. prefix [] q \<longrightarrow> Replacements \<lparr>Replacements = Map.empty\<rparr> q = None"
    by simp
  have agr: "\<forall>q. prefix [] q \<longrightarrow> Replacements v q = Replacements v q"
    by simp
  from rewritten_tree_is_stable(1)[rule_format, OF assms(1) emp[rule_format] agr[rule_format] assms(2)]
  show ?thesis
    unfolding replaceAndPrintDST_def by blast
qed

theorem C8_second_run_records_nothing_witness:
  \<open>Walk \<lparr>Replacements = Map.empty\<rparr> [] flat_tree =
     Inr \<lparr>Replacements =
       [[0, 0] \<mapsto> ImportSpec None token_STRING ''"log/slog"'' plain_decs,
        [1, 1, 0] \<mapsto>
          ExprStmt
            (CallExpr (SelectorExpr (Ident ''slog'') ''LogAttrs'')
               [Ident ''ctx'', SelectorExpr (Ident ''slog'') ''LevelInfo'',
                BasicLit token_STRING ''"zerolog event"'',
                CallExpr (SelectorExpr (Ident ''slog'') ''String'')
                  [BasicLit token_STRING ''"key"'', BasicLit token_STRING ''"value"'']])
            plain_decs,
        [1, 1, 1, 0, 1, 1, 0] \<mapsto>
          ExprStmt
            (CallExpr (SelectorExpr (Ident ''slog'') ''LogAttrs'')
               [Ident ''ctx'', SelectorExpr (Ident ''slog'') ''LevelWarn'',
                BasicLit token_STRING ''"late"''])
            plain_decs]\<rparr> \<and>
   replaced_flat flat_tree \<and>
   Walk \<lparr>Replacements = Map.empty\<rparr> []
     (replaceAndPrintDST flat_tree
       [[0, 0] \<mapsto> ImportSpec None token_STRING ''"log/slog"'' plain_decs,
        [1, 1, 0] \<mapsto>
          ExprStmt
            (CallExpr (SelectorExpr (Ident ''slog'') ''LogAttrs'')
               [Ident ''ctx'', SelectorExpr (Ident ''slog'') ''LevelInfo'',
                BasicLit token_STRING ''"zerolog event"'',
                CallExpr (SelectorExpr (Ident ''slog'') ''String'')
                  [BasicLit token_STRING ''"key"'', BasicLit token_STRING ''"value"'']])
            plain_decs,
        [1, 1, 1, 0, 1, 1, 0] \<mapsto>
          ExprStmt
            (CallExpr (SelectorExpr (Ident ''slog'') ''LogAttrs'')
               [Ident ''ctx'', SelectorExpr (Ident ''slog'') ''LevelWarn'',
                BasicLit token_STRING ''"late"''])
            plain_decs]) =
   Inr \<lparr>Replacements = Map.empty\<rparr>\<close>
proof -
  have 1: \<open>Walk \<lparr>Replacements = Map.empty\<rparr> [] flat_tree =
     Inr \<lparr>Replacements =
       [[0, 0] \<mapsto> ImportSpec None token_STRING ''"log/slog"'' plain_decs,
        [1, 1, 0] \<mapsto>
          ExprStmt
            (CallExpr (SelectorExpr (Ident ''slog'') ''LogAttrs'')
               [Ident ''ctx'', SelectorExpr (Ident ''slog'') ''LevelInfo'',
                BasicLit token_STRING ''"zerolog event"'',
                CallExpr (SelectorExpr (Ident ''slog'') ''String'')
                  [BasicLit token_STRING ''"key"'', BasicLit token_STRING ''"value"'']])
            plain_decs,
        [1, 1, 1, 0, 1, 1, 0] \<mapsto>
          ExprStmt
            (CallExpr (SelectorExpr (Ident ''slog'') ''LogAttrs'')
               [Ident ''ctx'', SelectorExpr (Ident ''slog'') ''LevelWarn'',
                BasicLit token_STRING ''"late"''])
            plain_decs]\<rparr>\<close>
    by (simp add: eval_simps flat_tree_def eval_nat_numeral)
  have 2: "replaced_flat flat_tree"
    by (simp add: eval_simps flat_tree_def replaces_def)
  from 1 2 C8_second_run_records_nothing[OF 1 2] show ?thesis by simp
qed

subsection \<open>C9: failure atomicity of the extraction\<close>

text \<open>
  C9: every result that \<open>extractZerologChain\<close> returns is either the failure triple
  (empty level, no message, no attributes) or has a message and a level of the level table
  (\<open>Trace\<close>, \<open>Debug\<close>, \<open>Info\<close>, \<open>Warn\<close>, \<open>Error\<close>, \<open>Fatal\<close>, \<open>Panic\<close>). So the
  message alone tells failure from success.
\<close>

theorem C9_failure_atomicity:
  assumes "extractZerologChain currentFun currentArgs termFunc termArgs =
             Inr (level, message, slogAttrs)"
  shows "(message = None \<and> level = '''' \<and> slogAttrs = []) \<or>
         (message \<noteq> None \<and> isLoggerLevel level \<and>
          level \<in> {''Trace'', ''Debug'', ''Info'', ''Warn'', ''Error'', ''Fatal'', ''Panic''})"
proof -
  from assms obtain m where "chainLoop currentFun currentArgs m [] = (level, message, slogAttrs)"
    by (auto simp: extractZerologChain_def split: if_splits list.splits)
  from chainLoop_result[OF this] show ?thesis
    by (auto simp: isLoggerLevel_iff)
qed

theorem C9_failure_atomicity_witness:
  \<open>extractZerologChain (SelectorExpr (Ident ''log'') ''Warn'') [] ''Send'' [] =
      Inr (''Warn'', Some (BasicLit token_STRING ''"zerolog event"''), []) \<and>
    isLoggerLevel ''Warn''\<close>
proof -
  have h: \<open>extractZerologChain (SelectorExpr (Ident ''log'') ''Warn'') [] ''Send'' [] =
      Inr (''Warn'', Some (BasicLit token_STRING ''"zerolog event"''), [])\<close>
    by (simp add: eval_simps)
  show ?thesis
    using h C9_failure_atomicity[OF h] by simp
qed

subsection \<open>C10: the root identifier and the imports\<close>

text \<open>
  C10, as stated, fails. The claim says that every chain of the shape
  \<open>identifier.Level()....Msg(...)\<close> is converted. A call named like a level ends the
  walk of \<open>extractZerologChain\<close>, and there the receiver must be an identifier, or the
  extraction fails. For \<open>foo.Info().Error().Msg("m")\<close> the walk meets \<open>Error\<close> first,
  whose receiver is the call \<open>foo.Info()\<close>: \<open>Visit\<close> records nothing.
\<close>

theorem C10_counterexample:
  \<open>Visit \<lparr>Replacements = Map.empty\<rparr> [0]
     (ExprStmt
        (CallExpr (SelectorExpr
           (CallExpr (SelectorExpr
              (CallExpr (SelectorExpr (Ident ''foo'') ''Info'') [])
              ''Error'') [])
           ''Msg'') [BasicLit token_STRING ''"m"''])
        plain_decs) =
   Inr (\<lparr>Replacements = Map.empty\<rparr>, True)\<close>
  by (simp add: eval_simps)

text \<open>
  C10, amended: for a statement \<open>root.name(args)\<close> followed by any links and any
  terminator, what \<open>Visit\<close> does (the replacement it records, no match, or a panic)
  is the same for every root identifier and for every state of the visitor, which is all
  that the earlier visits (of imports among others) leave behind. And when \<open>name\<close> is a
  level, no link is named like a level, and the terminator is \<open>Send\<close>, or \<open>Msg\<close> or
  \<open>Msgf\<close> with at least one argument, the statement is replaced.
\<close>

theorem C10_root_and_imports_not_inspected:
  "(\<exists>outcome. \<forall>root v.
      Visit v key (ExprStmt (CallExpr (SelectorExpr
          (attach (CallExpr (SelectorExpr (Ident root) name) args) links) termFunc) termArgs) decs) =
        (case outcome of
           Inl e \<Rightarrow> Inl e
         | Inr None \<Rightarrow> Inr (v, True)
         | Inr (Some new) \<Rightarrow> Inr (record_replacement v key new, False)))
   \<and>
   (isLoggerLevel name \<and> (\<forall>(n, a) \<in> set links. \<not> isLoggerLevel n) \<and>
    ((termFunc = ''Msg'' \<or> termFunc = ''Msgf'') \<and> termArgs \<noteq> [] \<or> termFunc = ''Send'') \<longrightarrow>
      (\<exists>newSlogCall. \<forall>root v.
         Visit v key (ExprStmt (CallExpr (SelectorExpr
             (attach (CallExpr (SelectorExpr (Ident root) name) args) links) termFunc) termArgs) decs) =
         Inr (record_replacement v key (ExprStmt newSlogCall decs), False)))"
proof (intro conjI impI)
  let ?S = "\<lambda>root. ExprStmt (CallExpr (SelectorExpr
          (attach (CallExpr (SelectorExpr (Ident root) name) args) links) termFunc) termArgs) decs"
  from Visit_state_indep[of key "?S []"] obtain outcome
    where o: "\<And>v. Visit v key (?S []) =
        (case outcome of
           Inl e \<Rightarrow> Inl e
         | Inr None \<Rightarrow> Inr (v, True)
         | Inr (Some new) \<Rightarrow> Inr (record_replacement v key new, False))"
    by blast
  have "\<forall>root v. Visit v key (?S root) =
        (case outcome of
           Inl e \<Rightarrow> Inl e
         | Inr None \<Rightarrow> Inr (v, True)
         | Inr (Some new) \<Rightarrow> Inr (record_replacement v key new, False))"
  proof (intro allI)
    fix root v
    have "Visit v key (?S root) = Visit v key (?S [])" by (rule Visit_root_indep)
    with o[of v] show "Visit v key (?S root) =
        (case outcome of
           Inl e \<Rightarrow> Inl e
         | Inr None \<Rightarrow> Inr (v, True)
         | Inr (Some new) \<Rightarrow> Inr (record_replacement v key new, False))"
      by simp
  qed
  then show "\<exists>outcome. \<forall>root v. Visit v key (?S root) =
        (case outcome of
           Inl e \<Rightarrow> Inl e
         | Inr None \<Rightarrow> Inr (v, True)
         | Inr (Some new) \<Rightarrow> Inr (record_replacement v key new, False))"
    by (rule exI)
next
  assume h: "isLoggerLevel name \<and> (\<forall>(n, a) \<in> set links. \<not> isLoggerLevel n) \<and>
    ((termFunc = ''Msg'' \<or> termFunc = ''Msgf'') \<and> termArgs \<noteq> [] \<or> termFunc = ''Send'')"
  then have 1: "isLoggerLevel name" and 2: "\<forall>(n, a) \<in> set links. \<not> isLoggerLevel n"
    and 3: "(termFunc = ''Msg'' \<or> termFunc = ''Msgf'') \<and> termArgs \<noteq> [] \<or> termFunc = ''Send''"
    by simp_all
  obtain newSlogCall where c: \<open>buildSlogLogAttrsCall name
      (if termFunc = ''Send'' then BasicLit token_STRING ''"zerolog event"'' else hd termArgs)
      (List.map_filter (\<lambda>(n, a). convertFieldToSlogAttr n a) links) = Inr newSlogCall\<close>
    using buildSlogLogAttrsCall_eq by blast
  show "\<exists>newSlogCall. \<forall>root v.
         Visit v key (ExprStmt (CallExpr (SelectorExpr
             (attach (CallExpr (SelectorExpr (Ident root) name) args) links) termFunc) termArgs) decs) =
         Inr (record_replacement v key (ExprStmt newSlogCall decs), False)"
    unfolding Visit_level_chain[OF 1 2 3] c by auto
qed

theorem C10_root_and_imports_not_inspected_witness:
  \<open>(\<exists>outcome. \<forall>root v.
      Visit v [4, 2] (ExprStmt (CallExpr (SelectorExpr
          (attach (CallExpr (SelectorExpr (Ident root) ''Info'') [])
             [(''Str'', [BasicLit token_STRING ''"key"'', BasicLit token_STRING ''"value"''])])
          ''Send'') []) plain_decs) =
        (case outcome of
           Inl e \<Rightarrow> Inl e
         | Inr None \<Rightarrow> Inr (v, True)
         | Inr (Some new) \<Rightarrow> Inr (record_replacement v [4, 2] new, False)))
   \<and>
   (\<exists>newSlogCall. \<forall>root v.
      Visit v [4, 2] (ExprStmt (CallExpr (SelectorExpr
          (attach (CallExpr (SelectorExpr (Ident root) ''Info'') [])
             [(''Str'', [BasicLit token_STRING ''"key"'', BasicLit token_STRING ''"value"''])])
          ''Send'') []) plain_decs) =
      Inr (record_replacement v [4, 2] (ExprStmt newSlogCall plain_decs), False))\<close>
proof -
  have h: \<open>isLoggerLevel ''Info'' \<and>
    (\<forall>(n, a) \<in> set [(''Str'', [BasicLit token_STRING ''"key"'', BasicLit token_STRING ''"value"''])].
        \<not> isLoggerLevel n) \<and>
    ((''Send'' = ''Msg'' \<or> ''Send'' = ''Msgf'') \<and> ([]::node list) \<noteq> [] \<or> ''Send'' = ''Send'')\<close>
    by (simp add: isLoggerLevel_def logLevels_def)
  from C10_root_and_imports_not_inspected[of "[4, 2]" "''Info''" "[]"
      \<open>[(''Str'', [BasicLit token_STRING ''"key"'', BasicLit token_STRING ''"value"''])]\<close>
      "''Send''" "[]" plain_decs] h
  show ?thesis by blast
qed

end
